theory Spec2Isabelle
  imports Complex_Main "HOL-Library.Log_Nat" "HOL-Library.Word" "HOL-Library.Sublist"
begin

chapter \<open>The download subsystem of govd (util/download.go) and the Reddit data fetch\<close>

text \<open>
  A shallow embedding of \<^verbatim>\<open>src/util/download.go\<close> and of \<^verbatim>\<open>GetRedditData\<close>
  (the Reddit extractor). Go's \<^verbatim>\<open>int\<close> is taken as the 64-bit signed integer of the
  usual targets; it is modelled by \<^typ>\<open>int\<close> with the wrap-around written out
  (\<open>wrap64\<close>) where the source computes. Everything outside the program (the HTTP
  session, the file system's failures, the caller's cancellation, the remuxer, the
  scheduler) is an oracle of the environment record \<open>env\<close>; the state the program changes
  is the record \<open>world\<close>.
\<close>

section \<open>Part I: the embedding\<close>

subsection \<open>Machine integers and \<^verbatim>\<open>float64\<close>\<close>

definition wrap64 :: "int \<Rightarrow> int" where
  "wrap64 x = (x + 2 ^ 63) mod 2 ^ 64 - 2 ^ 63"

text \<open>
  A finite \<^verbatim>\<open>float64\<close> is modelled by the rational number it denotes. \<open>round_f64\<close> is
  IEEE 754 round-to-nearest, ties-to-even, with a 53-bit significand. Overflow to infinity
  and subnormals are left out: the only values rounded below are 64-bit integers and
  quotients of two of them, whose magnitudes lie between \<open>2\<^sup>-\<^sup>6\<^sup>3\<close> and \<open>2\<^sup>6\<^sup>3\<close>.
\<close>

definition round_half_even :: "rat \<Rightarrow> int" where
  "round_half_even x =
     (let f = \<lfloor>x\<rfloor>; d = x - of_int f
      in if d < 1 / 2 then f else if 1 / 2 < d then f + 1 else if even f then f else f + 1)"

text \<open>For \<open>x > 0\<close>, \<open>ilog2 x\<close> is the binary exponent \<open>e\<close> with \<open>2\<^sup>e \<le> x < 2\<^sup>e\<^sup>+\<^sup>1\<close>.\<close>

definition ilog2 :: "rat \<Rightarrow> int" where
  "ilog2 x =
     (let (p, q) = quotient_of x; e0 = bitlen p - bitlen q
      in if 2 powi e0 \<le> x then e0 else e0 - 1)"

definition round_pos :: "rat \<Rightarrow> rat" where
  "round_pos x = (let u = 2 powi (ilog2 x - 52) in of_int (round_half_even (x / u)) * u)"

definition round_f64 :: "rat \<Rightarrow> rat" where
  "round_f64 x = (if x = 0 then 0 else if 0 < x then round_pos x else - round_pos (- x))"

text \<open>The conversion \<^verbatim>\<open>float64(n)\<close> and the division of two \<^verbatim>\<open>float64\<close> (divisor not zero).\<close>

definition float64_of_int :: "int \<Rightarrow> rat" where
  "float64_of_int n = round_f64 (of_int n)"

definition f64_div :: "rat \<Rightarrow> rat \<Rightarrow> rat" where
  "f64_div a b = round_f64 (a / b)"

definition math_Ceil :: "rat \<Rightarrow> rat" where
  "math_Ceil f = of_int \<lceil>f\<rceil>"

text \<open>
  The conversion \<^verbatim>\<open>int(f)\<close> truncates towards zero. Out of the range of \<^verbatim>\<open>int\<close> the
  language leaves the result to the implementation; the model takes that of amd64,
  the smallest integer.
\<close>

definition int_of_float64 :: "rat \<Rightarrow> int" where
  "int_of_float64 f =
     (let t = (if 0 \<le> f then \<lfloor>f\<rfloor> else \<lceil>f\<rceil>)
      in if - (2 ^ 63) \<le> t \<and> t < 2 ^ 63 then t else - (2 ^ 63))"

subsection \<open>Formatting\<close>

fun string_of_nat :: "nat \<Rightarrow> string" where
  "string_of_nat n =
     (if n < 10 then [''0123456789'' ! n]
      else string_of_nat (n div 10) @ [''0123456789'' ! (n mod 10)])"

declare string_of_nat.simps [simp del]

text \<open>The verb \<^verbatim>\<open>%d\<close> of \<^verbatim>\<open>fmt.Sprintf\<close>.\<close>

definition string_of_int :: "int \<Rightarrow> string" where
  "string_of_int i =
     (if i < 0 then CHR ''-'' # string_of_nat (nat (- i)) else string_of_nat (nat i))"

text \<open>The verb \<^verbatim>\<open>%05d\<close> at an index, which is never negative.\<close>

definition pad5 :: "nat \<Rightarrow> string" where
  "pad5 n = (let s = string_of_nat n in replicate (5 - length s) CHR ''0'' @ s)"

text \<open>
  \<^verbatim>\<open>filepath.Clean\<close> on a Unix path: the elements between the separators are gone
  through from left to right; an empty element and \<^verbatim>\<open>.\<close> are dropped, \<^verbatim>\<open>..\<close> removes
  the element before it (at the start of a rooted path it is dropped, at the start of
  another path it is kept); the empty result is \<^verbatim>\<open>.\<close>. \<open>split_path\<close> is
  \<^verbatim>\<open>strings.Split(path, "/")\<close>, and the accumulator of \<open>clean_elems\<close> holds the elements
  kept so far, the last one first.
\<close>

fun split_path :: "string \<Rightarrow> string list" where
  "split_path [] = [[]]"
| "split_path (c # cs) =
     (if c = CHR ''/'' then [] # split_path cs
      else (case split_path cs of [] \<Rightarrow> [[c]] | x # xs \<Rightarrow> (c # x) # xs))"

fun clean_elems :: "bool \<Rightarrow> string list \<Rightarrow> string list \<Rightarrow> string list" where
  "clean_elems rooted [] out = rev out"
| "clean_elems rooted (e # es) out =
     (if e = [] \<or> e = ''.'' then clean_elems rooted es out
      else if e = ''..'' then
        (case out of
           [] \<Rightarrow> if rooted then clean_elems rooted es [] else clean_elems rooted es [e]
         | prev # below \<Rightarrow>
             if prev = ''..'' then clean_elems rooted es (e # out)
             else clean_elems rooted es below)
      else clean_elems rooted es (e # out))"

fun join_slash :: "string list \<Rightarrow> string" where
  "join_slash [] = []"
| "join_slash [x] = x"
| "join_slash (x # y # ys) = x @ CHR ''/'' # join_slash (y # ys)"

definition filepath_Clean :: "string \<Rightarrow> string" where
  "filepath_Clean path =
     (case path of
        [] \<Rightarrow> ''.''
      | c # cs \<Rightarrow>
          let rooted = (c = CHR ''/'');
              out = join_slash (clean_elems rooted (split_path path) []);
              r = (if rooted then CHR ''/'' # out else out)
          in if r = [] then ''.'' else r)"

text \<open>
  \<^verbatim>\<open>filepath.Join\<close> of two elements: the elements from the first non-empty one on are
  joined by the separator and the result is cleaned; two empty elements give the empty
  string.
\<close>

definition filepath_Join :: "string \<Rightarrow> string \<Rightarrow> string" where
  "filepath_Join dir name =
     (if dir \<noteq> [] then filepath_Clean (dir @ ''/'' @ name)
      else if name \<noteq> [] then filepath_Clean name
      else [])"

subsection \<open>\<^verbatim>\<open>createChunks\<close>\<close>

text \<open>
  A chunk \<^verbatim>\<open>[2]int\<close> is the pair of its first and last byte offset. \<open>chunk_at\<close> is the body
  of the loop of \<^verbatim>\<open>createChunks\<close> at index \<open>i\<close>. The function panics where \<^verbatim>\<open>make\<close> is
  given a negative length; with \<^verbatim>\<open>chunkSize = 0\<close> the quotient is \<open>+Inf\<close>, whose conversion
  to \<^verbatim>\<open>int\<close> is the smallest integer on amd64 and the largest on arm64, and \<^verbatim>\<open>make\<close>
  panics on both. The limit of the allocator on the length of a slice is not modelled.
\<close>

definition chunk_at :: "int \<Rightarrow> int \<Rightarrow> int \<Rightarrow> int \<times> int" where
  "chunk_at fileSize chunkSize i =
     (let start = wrap64 (i * chunkSize);
          end' = wrap64 (wrap64 (start + chunkSize) - 1)
      in (start, if end' \<ge> fileSize then wrap64 (fileSize - 1) else end'))"

definition createChunks :: "int \<Rightarrow> int \<Rightarrow> string + (int \<times> int) list" where
  "createChunks fileSize chunkSize =
     (if fileSize \<le> 0 then Inr [(0, 0)]
      else if chunkSize = 0 then Inl ''makeslice: len out of range''
      else
        let numChunks =
              int_of_float64
                (math_Ceil (f64_div (float64_of_int fileSize) (float64_of_int chunkSize)))
        in if numChunks < 0 then Inl ''makeslice: len out of range''
           else Inr (map (chunk_at fileSize chunkSize) [0..numChunks - 1]))"

text \<open>The size of a chunk as \<^verbatim>\<open>runChunkedDownload\<close> computes it: \<^verbatim>\<open>chunk[1] - chunk[0] + 1\<close>.\<close>

definition chunk_size :: "int \<times> int \<Rightarrow> int" where
  "chunk_size chunk = wrap64 (wrap64 (snd chunk - fst chunk) + 1)"

subsection \<open>Errors and results\<close>

text \<open>
  One constructor for each place where the source builds an error; \<open>External\<close> is an
  error that comes from outside (the operating system, \<^verbatim>\<open>net/http\<close>, the decoder,
  the remuxer) and \<open>CtxErr\<close> is \<^verbatim>\<open>ctx.Err()\<close>.
\<close>

datatype error =
    External string
  | CtxErr
  | ErrDownloadFailed "error list"
  | RemuxingFailed error
  | FailedToCreateRequest error
  | FailedToDownloadFile error
  | UnexpectedStatusCode int
  | FailedToCreateDownloadsDirectory error
  | FailedToGetFileSize error
  | FailedToGetFileInfo int
  | FailedToCreateFile error
  | FailedToAllocateFileSpace error
  | ChunkFailed nat error
  | FailedToWriteChunk nat error
  | AllAttemptsFailed int "error option"
  | DownloadFailedCause error
  | FailedToCreateTemporaryDirectory error
  | FailedToDownloadSegment nat error
  | FailedToGetCookies error
  | FailedToSendRequest error
  | FailedToGetRedditData int
  | FailedToParseResponse error

text \<open>
  What a call does: it returns a value, returns an error, panics, or never returns
  (every goroutine is blocked).
\<close>

datatype 'a result = Ok 'a | Err error | Panics string | Blocks

subsection \<open>Requests, responses, configuration\<close>

type_synonym byte = "8 word"

datatype http_method = GET | HEAD

record request =
  req_method :: http_method
  req_url :: string
  req_headers :: "(string \<times> string) list"
  req_cookies :: "(string \<times> string) list"
  req_timeout :: "int option"

text \<open>\<open>Body\<close> is what \<^verbatim>\<open>io.ReadAll(resp.Body)\<close> gives.\<close>

record response =
  StatusCode :: int
  ContentLength :: int
  Body :: "error + byte list"

text \<open>
  Modelled from the spec: the declaration of \<^verbatim>\<open>models.DownloadConfig\<close> is not among the
  sources; its fields are those that \<^verbatim>\<open>DefaultConfig\<close> and \<^verbatim>\<open>DownloadSegments\<close> set and
  that the table of options in the specification lists. Durations are nanoseconds.
  \<open>ProgressUpdater\<close> is \<open>None\<close> for \<^verbatim>\<open>nil\<close>; a call of the handler is recorded in the trace.
\<close>

record DownloadConfig =
  ChunkSize :: int
  Concurrency :: int
  Timeout :: int
  DownloadDir :: string
  RetryAttempts :: int
  RetryDelay :: int
  Remux :: bool
  ProgressUpdater :: "unit option"

definition DefaultConfig :: DownloadConfig where
  "DefaultConfig =
     \<lparr>ChunkSize = 10 * 1024 * 1024, Concurrency = 4, Timeout = 30 * 1000000000,
      DownloadDir = ''downloads'', RetryAttempts = 3, RetryDelay = 2 * 1000000000,
      Remux = True, ProgressUpdater = None\<rparr>"

subsection \<open>The world and its oracles\<close>

datatype fs_op =
    MkdirAll string
  | Create string
  | Truncate string int
  | WriteAt string int
  | Remove string
  | RemoveAll string

text \<open>
  What the program does to the outside, in order: a request handed to the session, a
  wait of \<^verbatim>\<open>time.After\<close> that ran to its end, a call of the progress handler with the
  quotient \<^verbatim>\<open>float64(a) / float64(b)\<close> (kept as the pair, since \<open>b\<close> may be zero), a call
  of the file system, a call of the remuxer.
\<close>

datatype event =
    Request request
  | Sleep int
  | ProgressCall int int
  | FsOp fs_op
  | RemuxCall string

record world =
  clock :: nat
  trace :: "event list"
  files :: "string \<Rightarrow> byte list option"
  dirs :: "string set"

text \<open>
  A context is read through \<^verbatim>\<open>ctx.Done()\<close> only: \<open>ctx t\<close> says that a \<^verbatim>\<open>select\<close> entered
  at logical time \<open>t\<close> finds the context cancelled before its other branches end the wait.
  The logical time is the number of questions asked to the oracles so far.
\<close>

type_synonym go_context = "nat \<Rightarrow> bool"

text \<open>
  \<^item> \<open>session_Do\<close>: \<^verbatim>\<open>GetHTTPSession().Do(req)\<close>, also \<^verbatim>\<open>models.HTTPClient.Do\<close>;
  \<^item> \<open>new_request_err\<close>: the error of \<^verbatim>\<open>http.NewRequest\<close> on a URL it cannot parse;
  \<^item> \<open>fs_err\<close>: the failure of a call of the file system;
  \<^item> \<open>RemuxFile\<close>: the remuxer, given the path and the content of the file;
  \<^item> \<open>select_pick\<close>: the choice of a \<^verbatim>\<open>select\<close> with two ready branches, \<open>True\<close> for the
    branch of \<^verbatim>\<open>Done()\<close>;
  \<^item> \<open>sched\<close>: the order in which the scheduler runs the goroutines of a loop;
  \<^item> \<open>time_Now\<close>: \<^verbatim>\<open>time.Now().Format("20060102_150405")\<close>;
  \<^item> \<open>ParseCookieFile\<close>, \<open>ChromeUA\<close>: \<^verbatim>\<open>util.ParseCookieFile\<close>, \<^verbatim>\<open>util.ChromeUA\<close>, declared
    outside the sources;
  \<^item> \<open>json_decode\<close>: the decoder of the Reddit response, whose type \<^verbatim>\<open>Response\<close> is kept
    as a string.
\<close>

record env =
  session_Do :: "nat \<Rightarrow> request \<Rightarrow> error + response"
  new_request_err :: "string \<Rightarrow> error option"
  fs_err :: "nat \<Rightarrow> fs_op \<Rightarrow> error option"
  RemuxFile :: "nat \<Rightarrow> string \<Rightarrow> byte list option \<Rightarrow> error + byte list"
  select_pick :: "nat \<Rightarrow> bool"
  sched :: "nat list"
  time_Now :: "nat \<Rightarrow> string"
  ParseCookieFile :: "nat \<Rightarrow> string \<Rightarrow> error + (string \<times> string) list"
  ChromeUA :: string
  json_decode :: "byte list \<Rightarrow> error + string"

definition tick :: "world \<Rightarrow> world" where
  "tick w = w\<lparr>clock := Suc (clock w)\<rparr>"

definition emit :: "event \<Rightarrow> world \<Rightarrow> world" where
  "emit e w = w\<lparr>trace := trace w @ [e]\<rparr>"

text \<open>
  \<^verbatim>\<open>session.Do(req)\<close> on a request made with context \<open>ctx\<close>: a request whose context is
  already cancelled fails without being sent.
\<close>

definition http_Do :: "env \<Rightarrow> go_context \<Rightarrow> request \<Rightarrow> world \<Rightarrow> (error + response) \<times> world" where
  "http_Do E ctx req w =
     (if ctx (clock w) then (Inl CtxErr, tick w)
      else (session_Do E (clock w) req, emit (Request req) (tick w)))"

subsection \<open>The file system\<close>

definition fs_call :: "env \<Rightarrow> fs_op \<Rightarrow> world \<Rightarrow> error option \<times> world" where
  "fs_call E op w = (fs_err E (clock w) op, emit (FsOp op) (tick w))"

definition os_MkdirAll :: "env \<Rightarrow> string \<Rightarrow> world \<Rightarrow> error option \<times> world" where
  "os_MkdirAll E dir w =
     (case fs_call E (MkdirAll dir) w of
        (Some err, w') \<Rightarrow> (Some err, w')
      | (None, w') \<Rightarrow> (None, w'\<lparr>dirs := insert dir (dirs w')\<rparr>))"

definition os_Create :: "env \<Rightarrow> string \<Rightarrow> world \<Rightarrow> error option \<times> world" where
  "os_Create E path w =
     (case fs_call E (Create path) w of
        (Some err, w') \<Rightarrow> (Some err, w')
      | (None, w') \<Rightarrow> (None, w'\<lparr>files := (files w')(path \<mapsto> [])\<rparr>))"

definition resize :: "byte list \<Rightarrow> nat \<Rightarrow> byte list" where
  "resize content n = take n content @ replicate (n - length content) 0"

definition file_Truncate :: "env \<Rightarrow> string \<Rightarrow> int \<Rightarrow> world \<Rightarrow> error option \<times> world" where
  "file_Truncate E path sz w =
     (case fs_call E (Truncate path sz) w of
        (Some err, w') \<Rightarrow> (Some err, w')
      | (None, w') \<Rightarrow>
          (None, w'\<lparr>files := (\<lambda>p. if p = path then map_option (\<lambda>c. resize c (nat sz)) (files w' p)
                                     else files w' p)\<rparr>))"

definition write_at :: "byte list \<Rightarrow> byte list \<Rightarrow> nat \<Rightarrow> byte list" where
  "write_at content data off =
     (let old = content @ replicate (off - length content) 0
      in take off old @ data @ drop (off + length data) old)"

text \<open>\<^verbatim>\<open>file.WriteAt\<close> refuses a negative offset; a file already unlinked is written out of sight.\<close>

definition file_WriteAt :: "env \<Rightarrow> string \<Rightarrow> byte list \<Rightarrow> int \<Rightarrow> world \<Rightarrow> error option \<times> world" where
  "file_WriteAt E path data off w =
     (if off < 0 then (Some (External ''negative offset''), w)
      else
        case fs_call E (WriteAt path off) w of
          (Some err, w') \<Rightarrow> (Some err, w')
        | (None, w') \<Rightarrow>
            (None, w'\<lparr>files := (\<lambda>p. if p = path then map_option (\<lambda>c. write_at c data (nat off)) (files w' p)
                                       else files w' p)\<rparr>))"

text \<open>The source drops the error of \<^verbatim>\<open>os.Remove\<close> and of \<^verbatim>\<open>os.RemoveAll\<close>.\<close>

definition os_Remove :: "env \<Rightarrow> string \<Rightarrow> world \<Rightarrow> world" where
  "os_Remove E path w =
     (case fs_call E (Remove path) w of
        (Some err, w') \<Rightarrow> w'
      | (None, w') \<Rightarrow> w'\<lparr>files := (files w')(path := None)\<rparr>)"

definition under :: "string \<Rightarrow> string \<Rightarrow> bool" where
  "under dir p = (take (length dir + 1) p = dir @ ''/'')"

definition os_RemoveAll :: "env \<Rightarrow> string \<Rightarrow> world \<Rightarrow> world" where
  "os_RemoveAll E dir w =
     (case fs_call E (RemoveAll dir) w of
        (Some err, w') \<Rightarrow> w'
      | (None, w') \<Rightarrow>
          w'\<lparr>files := (\<lambda>p. if p = dir \<or> under dir p then None else files w' p),
             dirs := {d \<in> dirs w'. d \<noteq> dir \<and> \<not> under dir d}\<rparr>)"

definition ensureDownloadDir :: "env \<Rightarrow> string \<Rightarrow> world \<Rightarrow> error option \<times> world" where
  "ensureDownloadDir E dir w =
     (if dir \<notin> dirs w then
        (case os_MkdirAll E dir w of
           (Some err, w') \<Rightarrow> (Some (FailedToCreateDownloadsDirectory err), w')
         | (None, w') \<Rightarrow> (None, w'))
      else (None, w))"

text \<open>
  Modelled from the spec: \<^verbatim>\<open>av.RemuxFile\<close> (package \<^verbatim>\<open>govd/util/av\<close>) is not among the
  sources. The specification's remux interface is \<^verbatim>\<open>Remux(localPath) \<rightarrow> error\<close>, a black
  box that rewrites the container in place; on an error the file is left as it is.
\<close>

definition av_RemuxFile :: "env \<Rightarrow> string \<Rightarrow> world \<Rightarrow> error option \<times> world" where
  "av_RemuxFile E path w =
     (let w' = emit (RemuxCall path) (tick w)
      in case RemuxFile E (clock w) path (files w path) of
           Inl err \<Rightarrow> (Some err, w')
         | Inr content \<Rightarrow> (None, w'\<lparr>files := (files w')(path \<mapsto> content)\<rparr>))"

subsection \<open>\<^verbatim>\<open>getFileSize\<close>, \<^verbatim>\<open>downloadChunk\<close>, \<^verbatim>\<open>downloadChunkWithRetry\<close>\<close>

definition head_request :: "string \<Rightarrow> int \<Rightarrow> request" where
  "head_request fileURL timeout =
     \<lparr>req_method = HEAD, req_url = fileURL, req_headers = [], req_cookies = [],
      req_timeout = Some timeout\<rparr>"

definition getFileSize :: "env \<Rightarrow> go_context \<Rightarrow> string \<Rightarrow> int \<Rightarrow> world \<Rightarrow> (error + int) \<times> world" where
  "getFileSize E ctx fileURL timeout w =
     (case new_request_err E fileURL of
        Some err \<Rightarrow> (Inl (FailedToCreateRequest err), w)
      | None \<Rightarrow>
          (case http_Do E ctx (head_request fileURL timeout) w of
             (Inl err, w') \<Rightarrow> (Inl (FailedToGetFileSize err), w')
           | (Inr resp, w') \<Rightarrow>
               if StatusCode resp \<noteq> 200 then (Inl (FailedToGetFileInfo (StatusCode resp)), w')
               else (Inr (ContentLength resp), w')))"

text \<open>The request of \<^verbatim>\<open>downloadChunk\<close>: the header \<^verbatim>\<open>Range\<close> is added to every one.\<close>

definition chunk_request :: "string \<Rightarrow> int \<times> int \<Rightarrow> int \<Rightarrow> request" where
  "chunk_request fileURL chunk timeout =
     \<lparr>req_method = GET, req_url = fileURL,
      req_headers =
        [(''Range'', ''bytes='' @ string_of_int (fst chunk) @ ''-'' @ string_of_int (snd chunk))],
      req_cookies = [], req_timeout = Some timeout\<rparr>"

definition downloadChunk ::
  "env \<Rightarrow> go_context \<Rightarrow> string \<Rightarrow> int \<times> int \<Rightarrow> int \<Rightarrow> world \<Rightarrow> (error + byte list) \<times> world" where
  "downloadChunk E ctx fileURL chunk timeout w =
     (case new_request_err E fileURL of
        Some err \<Rightarrow> (Inl (FailedToCreateRequest err), w)
      | None \<Rightarrow>
          (case http_Do E ctx (chunk_request fileURL chunk timeout) w of
             (Inl err, w') \<Rightarrow> (Inl (DownloadFailedCause err), w')
           | (Inr resp, w') \<Rightarrow>
               if StatusCode resp \<noteq> 206 \<and> StatusCode resp \<noteq> 200
               then (Inl (UnexpectedStatusCode (StatusCode resp)), w')
               else (Body resp, w')))"

text \<open>
  The loop of \<^verbatim>\<open>downloadChunkWithRetry\<close>, with its variables \<^verbatim>\<open>attempt\<close> and \<^verbatim>\<open>lastErr\<close>.
  Before a retry the \<^verbatim>\<open>select\<close> waits for the context or for \<^verbatim>\<open>time.After(RetryDelay)\<close>;
  a delay that is not positive is over at once, and then both branches may be ready.
  The counter is not wrapped: it stays below \<open>2\<^sup>6\<^sup>3\<close> unless \<^verbatim>\<open>RetryAttempts\<close> is the
  largest integer.
\<close>

function retry_loop ::
  "env \<Rightarrow> go_context \<Rightarrow> string \<Rightarrow> int \<times> int \<Rightarrow> DownloadConfig \<Rightarrow> int \<Rightarrow> error option \<Rightarrow> world
     \<Rightarrow> (error + byte list) \<times> world" where
  "retry_loop E ctx fileURL chunk config attempt lastErr w =
     (if attempt \<le> RetryAttempts config then
        (if 0 < attempt \<and> ctx (clock w) \<and> (0 < RetryDelay config \<or> select_pick E (clock w))
         then (Inl CtxErr, tick w)
         else
           let w1 = (if 0 < attempt then emit (Sleep (RetryDelay config)) (tick w) else w)
           in case downloadChunk E ctx fileURL chunk (Timeout config) w1 of
                (Inr data, w2) \<Rightarrow> (Inr data, w2)
              | (Inl err, w2) \<Rightarrow>
                  retry_loop E ctx fileURL chunk config (attempt + 1) (Some err) w2)
      else (Inl (AllAttemptsFailed (wrap64 (RetryAttempts config + 1)) lastErr), w))"
  by pat_completeness auto
termination
  by (relation "measure (\<lambda>(E, ctx, fileURL, chunk, config, attempt, lastErr, w).
                  nat (RetryAttempts config + 1 - attempt))") auto

declare retry_loop.simps [simp del]

definition downloadChunkWithRetry ::
  "env \<Rightarrow> go_context \<Rightarrow> string \<Rightarrow> int \<times> int \<Rightarrow> DownloadConfig \<Rightarrow> world \<Rightarrow> (error + byte list) \<times> world" where
  "downloadChunkWithRetry E ctx fileURL chunk config w =
     retry_loop E ctx fileURL chunk config 0 None w"

definition writeChunkToFile :: "env \<Rightarrow> string \<Rightarrow> byte list \<Rightarrow> int \<Rightarrow> world \<Rightarrow> error option \<times> world" where
  "writeChunkToFile E file data offset w = file_WriteAt E file data offset w"

subsection \<open>\<^verbatim>\<open>runChunkedDownload\<close>\<close>

text \<open>
  The variables that the goroutines of \<^verbatim>\<open>runChunkedDownload\<close> share: \<^verbatim>\<open>downloadErr\<close>
  (set once, under \<^verbatim>\<open>errOnce\<close>), whether \<^verbatim>\<open>cancelDownload\<close> has been called, and the two
  counters behind \<^verbatim>\<open>progressMutex\<close>.
\<close>

record dl_state =
  downloadErr :: "error option"
  cancelled :: bool
  completedChunks :: int
  completedBytes :: int

definition dl_init :: dl_state where
  "dl_init = \<lparr>downloadErr = None, cancelled = False, completedChunks = 0, completedBytes = 0\<rparr>"

text \<open>\<^verbatim>\<open>errOnce.Do\<close>: the first error is kept, the download context is cancelled.\<close>

definition errOnce_Do :: "dl_state \<Rightarrow> error \<Rightarrow> dl_state" where
  "errOnce_Do st err =
     (if downloadErr st = None then st\<lparr>downloadErr := Some err, cancelled := True\<rparr> else st)"

text \<open>\<^verbatim>\<open>downloadCtx\<close>: done when \<^verbatim>\<open>cancelDownload\<close> was called or the parent is done.\<close>

definition downloadCtx :: "go_context \<Rightarrow> dl_state \<Rightarrow> go_context" where
  "downloadCtx ctx st = (\<lambda>t. cancelled st \<or> ctx t)"

text \<open>
  The goroutines are run one after the other, each to its end, in the order the
  scheduler chooses: \<open>schedule_order s n\<close> makes of any list \<open>s\<close> an order of the \<open>n\<close>
  indices (the indices of \<open>s\<close> first, the others after them), so every order is that of
  some \<open>s\<close>. With one goroutine at a time a slot of the semaphore is free whenever its
  capacity is positive.
\<close>

definition schedule_order :: "nat list \<Rightarrow> nat \<Rightarrow> nat list" where
  "schedule_order s n =
     (let first = remdups (filter (\<lambda>i. i < n) s)
      in first @ filter (\<lambda>i. i \<notin> set first) [0..<n])"

text \<open>
  The body of the goroutine of chunk \<open>idx\<close>, for a semaphore of positive capacity:
  the \<^verbatim>\<open>select\<close> between the semaphore and \<^verbatim>\<open>downloadCtx.Done()\<close>, the download with
  retries, the write at the chunk's offset, the update of the progress.
\<close>

definition chunk_goroutine ::
  "env \<Rightarrow> go_context \<Rightarrow> string \<Rightarrow> string \<Rightarrow> DownloadConfig \<Rightarrow> int \<Rightarrow> nat \<Rightarrow> int \<times> int
     \<Rightarrow> dl_state \<times> world \<Rightarrow> dl_state \<times> world" where
  "chunk_goroutine E ctx fileURL filePath config fileSize idx chunk sw =
     (let st = fst sw; w = snd sw
      in if downloadCtx ctx st (clock w) \<and> select_pick E (clock w) then (st, tick w)
         else
           case downloadChunkWithRetry E (downloadCtx ctx st) fileURL chunk config (tick w) of
             (Inl err, w1) \<Rightarrow> (errOnce_Do st (ChunkFailed idx err), w1)
           | (Inr chunkData, w1) \<Rightarrow>
               (case writeChunkToFile E filePath chunkData (fst chunk) w1 of
                  (Some err, w2) \<Rightarrow> (errOnce_Do st (FailedToWriteChunk idx err), w2)
                | (None, w2) \<Rightarrow>
                    let chunkSize = chunk_size chunk;
                        st' = st\<lparr>completedChunks := wrap64 (completedChunks st + 1),
                                 completedBytes := wrap64 (completedBytes st + chunkSize)\<rparr>
                    in (st',
                        if ProgressUpdater config \<noteq> None
                        then emit (ProgressCall (completedBytes st') fileSize) w2
                        else w2)))"

text \<open>
  \<^verbatim>\<open>runChunkedDownload\<close>. After the goroutines the \<^verbatim>\<open>select\<close> of the main goroutine
  finds \<^verbatim>\<open>errChan\<close> ready (it holds the first error or is closed); when the caller's
  context is done as well, either branch may be taken. With a semaphore of capacity 0
  no goroutine passes it: they and the main goroutine wait for the context.
\<close>

definition runChunkedDownload ::
  "env \<Rightarrow> go_context \<Rightarrow> string \<Rightarrow> string \<Rightarrow> DownloadConfig \<Rightarrow> world \<Rightarrow> unit result \<times> world" where
  "runChunkedDownload E ctx fileURL filePath config w =
     (case getFileSize E ctx fileURL (Timeout config) w of
        (Inl err, w1) \<Rightarrow> (Err err, w1)
      | (Inr fileSize, w1) \<Rightarrow>
          (case os_Create E filePath w1 of
             (Some err, w2) \<Rightarrow> (Err (FailedToCreateFile err), w2)
           | (None, w2) \<Rightarrow>
               (case (if 0 < fileSize then file_Truncate E filePath fileSize w2 else (None, w2)) of
                  (Some err, w3) \<Rightarrow> (Err (FailedToAllocateFileSpace err), w3)
                | (None, w3) \<Rightarrow>
                    (case createChunks fileSize (ChunkSize config) of
                       Inl msg \<Rightarrow> (Panics msg, w3)
                     | Inr chunks \<Rightarrow>
                         if Concurrency config < 0 then (Panics ''makechan: size out of range'', w3)
                         else if Concurrency config = 0 \<and> chunks \<noteq> [] then
                           (if ctx (clock w3) then
                              (if select_pick E (clock w3)
                               then (Err CtxErr, os_Remove E filePath (tick w3))
                               else (Ok (), tick w3))
                            else (Blocks, tick w3))
                         else
                           let sw = foldl (\<lambda>sw idx. chunk_goroutine E ctx fileURL filePath config
                                                       fileSize idx (chunks ! idx) sw)
                                      (dl_init, w3) (schedule_order (sched E) (length chunks));
                               st = fst sw; w4 = snd sw
                           in if ctx (clock w4) \<and> select_pick E (clock w4)
                              then (Err CtxErr, os_Remove E filePath (tick w4))
                              else (case downloadErr st of
                                      Some err \<Rightarrow> (Err err, os_Remove E filePath (tick w4))
                                    | None \<Rightarrow> (Ok (), tick w4))))))"

subsection \<open>\<^verbatim>\<open>DownloadFile\<close> and \<^verbatim>\<open>DownloadFileInMemory\<close>\<close>

text \<open>The loop over \<^verbatim>\<open>URLList\<close>, with its variable \<^verbatim>\<open>errs\<close>.\<close>

fun DownloadFile_loop ::
  "env \<Rightarrow> go_context \<Rightarrow> string list \<Rightarrow> string \<Rightarrow> DownloadConfig \<Rightarrow> error list \<Rightarrow> world
     \<Rightarrow> string result \<times> world" where
  "DownloadFile_loop E ctx [] fileName config errs w = (Err (ErrDownloadFailed errs), w)"
| "DownloadFile_loop E ctx (fileURL # rest) fileName config errs w =
     (if ctx (clock w) then (Err CtxErr, tick w)
      else
        case ensureDownloadDir E (DownloadDir config) (tick w) of
          (Some err, w1) \<Rightarrow> (Err err, w1)
        | (None, w1) \<Rightarrow>
            let filePath = filepath_Join (DownloadDir config) fileName
            in case runChunkedDownload E ctx fileURL filePath config w1 of
                 (Err err, w2) \<Rightarrow> DownloadFile_loop E ctx rest fileName config (errs @ [err]) w2
               | (Panics msg, w2) \<Rightarrow> (Panics msg, w2)
               | (Blocks, w2) \<Rightarrow> (Blocks, w2)
               | (Ok u, w2) \<Rightarrow>
                   if Remux config then
                     (case av_RemuxFile E filePath w2 of
                        (Some err, w3) \<Rightarrow> (Err (RemuxingFailed err), w3)
                      | (None, w3) \<Rightarrow> (Ok filePath, w3))
                   else (Ok filePath, w2))"

definition DownloadFile ::
  "env \<Rightarrow> go_context \<Rightarrow> string list \<Rightarrow> string \<Rightarrow> DownloadConfig option \<Rightarrow> world
     \<Rightarrow> string result \<times> world" where
  "DownloadFile E ctx URLList fileName config w =
     DownloadFile_loop E ctx URLList fileName
       (case config of None \<Rightarrow> DefaultConfig | Some c \<Rightarrow> c) [] w"

definition get_request :: "string \<Rightarrow> int \<Rightarrow> request" where
  "get_request fileURL timeout =
     \<lparr>req_method = GET, req_url = fileURL, req_headers = [], req_cookies = [],
      req_timeout = Some timeout\<rparr>"

definition downloadInMemory ::
  "env \<Rightarrow> go_context \<Rightarrow> string \<Rightarrow> int \<Rightarrow> world \<Rightarrow> (error + byte list) \<times> world" where
  "downloadInMemory E ctx fileURL timeout w =
     (case new_request_err E fileURL of
        Some err \<Rightarrow> (Inl (FailedToCreateRequest err), w)
      | None \<Rightarrow>
          (case http_Do E ctx (get_request fileURL timeout) w of
             (Inl err, w') \<Rightarrow> (Inl (FailedToDownloadFile err), w')
           | (Inr resp, w') \<Rightarrow>
               if StatusCode resp \<noteq> 200 then (Inl (UnexpectedStatusCode (StatusCode resp)), w')
               else (Body resp, w')))"

text \<open>The reader \<^verbatim>\<open>bytes.NewReader(data)\<close> is kept as the bytes it reads.\<close>

fun DownloadFileInMemory_loop ::
  "env \<Rightarrow> go_context \<Rightarrow> string list \<Rightarrow> DownloadConfig \<Rightarrow> error list \<Rightarrow> world
     \<Rightarrow> (error + byte list) \<times> world" where
  "DownloadFileInMemory_loop E ctx [] config errs w = (Inl (ErrDownloadFailed errs), w)"
| "DownloadFileInMemory_loop E ctx (fileURL # rest) config errs w =
     (if ctx (clock w) then (Inl CtxErr, tick w)
      else
        case downloadInMemory E ctx fileURL (Timeout config) (tick w) of
          (Inl err, w1) \<Rightarrow> DownloadFileInMemory_loop E ctx rest config (errs @ [err]) w1
        | (Inr data, w1) \<Rightarrow> (Inr data, w1))"

definition DownloadFileInMemory ::
  "env \<Rightarrow> go_context \<Rightarrow> string list \<Rightarrow> DownloadConfig option \<Rightarrow> world
     \<Rightarrow> (error + byte list) \<times> world" where
  "DownloadFileInMemory E ctx URLList config w =
     DownloadFileInMemory_loop E ctx URLList
       (case config of None \<Rightarrow> DefaultConfig | Some c \<Rightarrow> c) [] w"

subsection \<open>\<^verbatim>\<open>DownloadSegments\<close>\<close>

definition segment_name :: "nat \<Rightarrow> string" where
  "segment_name idx = ''segment_'' @ pad5 idx"

text \<open>The configuration that the goroutine of a segment hands to \<^verbatim>\<open>DownloadFile\<close>.\<close>

definition segment_config :: "DownloadConfig \<Rightarrow> string \<Rightarrow> DownloadConfig" where
  "segment_config config tempDir =
     \<lparr>ChunkSize = ChunkSize config, Concurrency = 3, Timeout = Timeout config,
      DownloadDir = tempDir, RetryAttempts = RetryAttempts config,
      RetryDelay = RetryDelay config, Remux = False, ProgressUpdater = None\<rparr>"

text \<open>
  The goroutines of the segments, run one after the other in the order \<open>order\<close>, over
  the array \<^verbatim>\<open>downloadedFiles\<close>. The main goroutine returns at the first error it receives
  from \<^verbatim>\<open>errChan\<close>, after removing the directory; the goroutines that have not run by then
  are left out.
\<close>

fun run_segments ::
  "env \<Rightarrow> go_context \<Rightarrow> DownloadConfig \<Rightarrow> string \<Rightarrow> string list \<Rightarrow> nat list \<Rightarrow> string list \<Rightarrow> world
     \<Rightarrow> string list result \<times> world" where
  "run_segments E ctx config tempDir segmentURLs [] downloadedFiles w = (Ok downloadedFiles, w)"
| "run_segments E ctx config tempDir segmentURLs (idx # order) downloadedFiles w =
     (let segmentFileName = segment_name idx;
          segmentPath = filepath_Join tempDir segmentFileName
      in case DownloadFile E ctx [segmentURLs ! idx] segmentFileName
                (Some (segment_config config tempDir)) w of
           (Err err, w1) \<Rightarrow> (Err (FailedToDownloadSegment idx err), os_RemoveAll E tempDir w1)
         | (Panics msg, w1) \<Rightarrow> (Panics msg, w1)
         | (Blocks, w1) \<Rightarrow> (Blocks, w1)
         | (Ok p, w1) \<Rightarrow>
             run_segments E ctx config tempDir segmentURLs order
               (downloadedFiles[idx := segmentPath]) w1)"

text \<open>
  \<^verbatim>\<open>DownloadSegments\<close>. Its semaphore has no branch for the context: with capacity 0 and
  a segment to download, every goroutine stays blocked and the function never returns.
\<close>

definition DownloadSegments ::
  "env \<Rightarrow> go_context \<Rightarrow> string list \<Rightarrow> DownloadConfig option \<Rightarrow> world
     \<Rightarrow> string list result \<times> world" where
  "DownloadSegments E ctx segmentURLs config0 w =
     (let config = (case config0 of None \<Rightarrow> DefaultConfig | Some c \<Rightarrow> c);
          tempDir = filepath_Join (DownloadDir config) (''segments_'' @ time_Now E (clock w))
      in case os_MkdirAll E tempDir (tick w) of
           (Some err, w1) \<Rightarrow> (Err (FailedToCreateTemporaryDirectory err), w1)
         | (None, w1) \<Rightarrow>
             if Concurrency config < 0 then (Panics ''makechan: size out of range'', w1)
             else if Concurrency config = 0 \<and> segmentURLs \<noteq> [] then (Blocks, w1)
             else run_segments E ctx config tempDir segmentURLs
                    (schedule_order (sched E) (length segmentURLs))
                    (replicate (length segmentURLs) []) w1)"

subsection \<open>\<^verbatim>\<open>GetRedditData\<close>\<close>

definition reddit_request :: "env \<Rightarrow> string \<Rightarrow> (string \<times> string) list \<Rightarrow> request" where
  "reddit_request E url cookies =
     \<lparr>req_method = GET, req_url = url, req_headers = [(''User-Agent'', ChromeUA E)],
      req_cookies = cookies, req_timeout = None\<rparr>"

definition reddit_url :: "string \<Rightarrow> string \<Rightarrow> string" where
  "reddit_url host slug = ''https://'' @ host @ ''/'' @ slug @ ''/.json''"

text \<open>
  \<^verbatim>\<open>GetRedditData(session, host, slug, raise)\<close>; the session is the oracle \<open>session_Do\<close>,
  and the request carries no context.
\<close>

function GetRedditData ::
  "env \<Rightarrow> string \<Rightarrow> string \<Rightarrow> bool \<Rightarrow> world \<Rightarrow> (error + string) \<times> world" where
  "GetRedditData E host slug raise w =
     (let url = reddit_url host slug
      in case new_request_err E url of
           Some err \<Rightarrow> (Inl (FailedToCreateRequest err), w)
         | None \<Rightarrow>
             (case ParseCookieFile E (clock w) ''reddit.txt'' of
                Inl err \<Rightarrow> (Inl (FailedToGetCookies err), tick w)
              | Inr cookies \<Rightarrow>
                  (case http_Do E (\<lambda>t. False) (reddit_request E url cookies) (tick w) of
                     (Inl err, w1) \<Rightarrow> (Inl (FailedToSendRequest err), w1)
                   | (Inr res, w1) \<Rightarrow>
                       if StatusCode res \<noteq> 200 then
                         (if raise then (Inl (FailedToGetRedditData (StatusCode res)), w1)
                          else
                            let altHost =
                                  (if host = ''old.reddit.com'' then ''www.reddit.com''
                                   else ''old.reddit.com'')
                            in GetRedditData E altHost slug True w1)
                       else
                         (case Body res of
                            Inl err \<Rightarrow> (Inl (FailedToParseResponse err), w1)
                          | Inr data \<Rightarrow>
                              (case json_decode E data of
                                 Inl err \<Rightarrow> (Inl (FailedToParseResponse err), w1)
                               | Inr response \<Rightarrow> (Inr response, w1))))))"
  by pat_completeness auto
termination
  by (relation "measure (\<lambda>(E, host, slug, raise, w). if raise then 0 else 1)") auto

declare GetRedditData.simps [simp del]

subsection \<open>Reading a trace\<close>

definition requests_of :: "event list \<Rightarrow> request list" where
  "requests_of evs = concat (map (\<lambda>ev. case ev of Request r \<Rightarrow> [r] | _ \<Rightarrow> []) evs)"

definition progress_of :: "event list \<Rightarrow> (int \<times> int) list" where
  "progress_of evs = concat (map (\<lambda>ev. case ev of ProgressCall a b \<Rightarrow> [(a, b)] | _ \<Rightarrow> []) evs)"

definition fs_ops_of :: "event list \<Rightarrow> fs_op list" where
  "fs_ops_of evs = concat (map (\<lambda>ev. case ev of FsOp op \<Rightarrow> [op] | _ \<Rightarrow> []) evs)"

subsection \<open>Concrete worlds\<close>

text \<open>
  An empty world, a context that is never cancelled (\<^verbatim>\<open>context.Background()\<close>), and an
  environment in which nothing fails by itself: a server that sends \<open>body\<close> with status
  \<open>get_status\<close> to a \<^verbatim>\<open>GET\<close> and answers a \<^verbatim>\<open>HEAD\<close> with status \<open>head_status\<close> and the
  given \<^verbatim>\<open>Content-Length\<close>.
\<close>

definition world0 :: world where
  "world0 = \<lparr>clock = 0, trace = [], files = (\<lambda>p. None), dirs = {}\<rparr>"

definition background :: go_context where
  "background = (\<lambda>t. False)"

definition server :: "int \<Rightarrow> int \<Rightarrow> int \<Rightarrow> byte list \<Rightarrow> nat \<Rightarrow> request \<Rightarrow> error + response" where
  "server head_status content_length get_status body t req =
     (if req_method req = HEAD
      then Inr \<lparr>StatusCode = head_status, ContentLength = content_length, Body = Inr []\<rparr>
      else Inr \<lparr>StatusCode = get_status, ContentLength = int (length body), Body = Inr body\<rparr>)"

definition env0 :: "(nat \<Rightarrow> request \<Rightarrow> error + response) \<Rightarrow> env" where
  "env0 srv =
     \<lparr>session_Do = srv,
      new_request_err = (\<lambda>url. None),
      fs_err = (\<lambda>t op. None),
      RemuxFile = (\<lambda>t path content. Inr (case content of None \<Rightarrow> [] | Some c \<Rightarrow> c)),
      select_pick = (\<lambda>t. False),
      sched = [],
      time_Now = (\<lambda>t. ''20240101_000000''),
      ParseCookieFile = (\<lambda>t name. Inr []),
      ChromeUA = ''Mozilla/5.0'',
      json_decode = (\<lambda>data. Inr ''[]'')\<rparr>"

text \<open>A context that is cancelled at logical time \<open>n\<close>.\<close>

definition cancelled_after :: "nat \<Rightarrow> go_context" where
  "cancelled_after n = (\<lambda>t. n \<le> t)"

text \<open>A file system on which \<^verbatim>\<open>Truncate\<close> fails (a full disk) and nothing else does.\<close>

definition truncate_fails :: "nat \<Rightarrow> fs_op \<Rightarrow> error option" where
  "truncate_fails t op =
     (case op of Truncate p n \<Rightarrow> Some (External ''no space left on device'') | _ \<Rightarrow> None)"

text \<open>
  A server whose file at the URL \<open>good\<close> is the byte 1 and at any other URL the byte 0,
  and a remuxer that accepts only the file made of the byte 1.
\<close>

definition url_server :: "string \<Rightarrow> nat \<Rightarrow> request \<Rightarrow> error + response" where
  "url_server good t req =
     (if req_method req = HEAD
      then Inr \<lparr>StatusCode = 200, ContentLength = 1, Body = Inr []\<rparr>
      else Inr \<lparr>StatusCode = 206, ContentLength = 1,
                Body = Inr [if req_url req = good then 1 else 0]\<rparr>)"

definition picky_remux :: "nat \<Rightarrow> string \<Rightarrow> byte list option \<Rightarrow> error + byte list" where
  "picky_remux t path content =
     (if content = Some [1] then Inr [1] else Inl (External ''invalid data found''))"

section \<open>Part II: properties\<close>

subsection \<open>Rounding to \<^verbatim>\<open>float64\<close>\<close>

lemma rhe_cases:
  "round_half_even z = \<lfloor>z\<rfloor> \<or> round_half_even z = \<lfloor>z\<rfloor> + 1"
  unfolding round_half_even_def Let_def by auto

lemma rhe_int: "round_half_even (of_int k) = k"
  unfolding round_half_even_def Let_def by simp

lemma rhe_err: "\<bar>of_int (round_half_even z) - z\<bar> \<le> 1 / 2"
proof -
  have "of_int \<lfloor>z\<rfloor> \<le> z" "z < of_int \<lfloor>z\<rfloor> + 1" by linarith+
  then show ?thesis
    unfolding round_half_even_def Let_def by (simp add: abs_if) linarith
qed

lemma rhe_ge: "of_int k \<le> z \<Longrightarrow> k \<le> round_half_even z"
proof -
  assume "of_int k \<le> z"
  then have "k \<le> \<lfloor>z\<rfloor>" by (simp add: le_floor_iff)
  then show ?thesis using rhe_cases [of z] by auto
qed

lemma rhe_le:
  assumes "z \<le> of_int k"
  shows "round_half_even z \<le> k"
proof (cases "z = of_int k")
  case True
  then show ?thesis by (simp add: rhe_int)
next
  case False
  with assms have "z < of_int k" by simp
  then have "\<lfloor>z\<rfloor> < k" by (simp add: floor_less_iff)
  then show ?thesis using rhe_cases [of z] by auto
qed

lemma ilog2_bounds:
  assumes "0 < x"
  shows "2 powi (ilog2 x) \<le> x" and "x < 2 powi (ilog2 x + 1)"
proof -
  obtain p q where pq: "quotient_of x = (p, q)" by (cases "quotient_of x")
  then have q: "0 < q" by (rule quotient_of_denom_pos)
  have x: "x = of_int p / of_int q" using pq by (simp add: quotient_of_div)
  with assms q have p: "0 < p" by (simp add: zero_less_divide_iff)
  define bp where "bp = bitlen p"
  define bq where "bq = bitlen q"
  have bp: "2 ^ nat (bp - 1) \<le> p" "p < 2 ^ nat bp" using bitlen_bounds [OF p] by (simp_all add: bp_def)
  have bq: "2 ^ nat (bq - 1) \<le> q" "q < 2 ^ nat bq" using bitlen_bounds [OF q] by (simp_all add: bq_def)
  have bp1: "1 \<le> bp" using p by (simp add: bp_def bitlen_def floorlog_def)
  have bq1: "1 \<le> bq" using q by (simp add: bq_def bitlen_def floorlog_def)
  have pw: "(2::rat) powi k = of_int (2 ^ nat k)" if "0 \<le> k" for k
    using that by (simp add: power_int_def)
  have P: "(2::rat) powi (bp - 1) \<le> of_int p" "of_int p < (2::rat) powi bp"
    using bp bp1 by (simp_all only: pw of_int_le_iff of_int_less_iff)
  have Q: "(2::rat) powi (bq - 1) \<le> of_int q" "of_int q < (2::rat) powi bq"
    using bq bq1 by (simp_all only: pw of_int_le_iff of_int_less_iff)
  have qpos: "(0::rat) < of_int q" using q by simp
  have two: "(0::rat) < 2 powi k" for k by simp
  have lo: "2 powi (bp - bq - 1) < x"
  proof -
    have "2 powi (bp - bq - 1) * of_int q < 2 powi (bp - bq - 1) * (2::rat) powi bq"
      using Q(2) by (simp add: mult_strict_left_mono)
    also have "\<dots> = 2 powi (bp - 1)" by (simp flip: power_int_add)
    also have "\<dots> \<le> of_int p" by (rule P(1))
    finally show ?thesis using qpos by (simp add: x pos_less_divide_eq)
  qed
  have hi: "x < 2 powi (bp - bq + 1)"
  proof -
    have "of_int p < (2::rat) powi bp" by (rule P(2))
    also have "\<dots> = 2 powi (bp - bq + 1) * 2 powi (bq - 1)" by (simp flip: power_int_add)
    also have "\<dots> \<le> 2 powi (bp - bq + 1) * of_int q"
      using Q(1) by (simp add: mult_left_mono)
    finally show ?thesis using qpos by (simp add: x pos_divide_less_eq)
  qed
  have il: "ilog2 x = (if 2 powi (bp - bq) \<le> x then bp - bq else bp - bq - 1)"
    by (simp add: ilog2_def pq bp_def bq_def)
  show "2 powi (ilog2 x) \<le> x" using lo by (simp add: il)
  show "x < 2 powi (ilog2 x + 1)" using hi by (simp add: il not_le)
qed


lemma round_pos_err:
  assumes "0 < x"
  shows "\<bar>round_pos x - x\<bar> \<le> 2 powi (ilog2 x - 53)"
proof -
  define u :: rat where "u = 2 powi (ilog2 x - 52)"
  have u: "0 < u" by (simp add: u_def)
  have "round_pos x - x = (of_int (round_half_even (x / u)) - x / u) * u"
    using u by (simp add: round_pos_def u_def [symmetric] Let_def left_diff_distrib)
  then have "\<bar>round_pos x - x\<bar> = \<bar>of_int (round_half_even (x / u)) - x / u\<bar> * u"
    using u by (simp only: abs_mult abs_of_pos)
  also have "\<dots> \<le> (1 / 2) * u"
    using rhe_err [of "x / u"] u by (intro mult_right_mono) simp_all
  also have "\<dots> = 2 powi (ilog2 x - 53)"
    by (simp add: u_def power_int_diff)
  finally show ?thesis .
qed

lemma round_pos_ge_pow:
  assumes "0 < x"
  shows "2 powi (ilog2 x) \<le> round_pos x"
proof -
  define u :: rat where "u = 2 powi (ilog2 x - 52)"
  have u: "0 < u" by (simp add: u_def)
  have "2 powi (ilog2 x) \<le> x" using assms by (rule ilog2_bounds)
  then have "2 powi (ilog2 x) / u \<le> x / u" using u by (simp add: divide_right_mono)
  moreover have "2 powi (ilog2 x) / u = of_int (2 ^ 52)"
    by (simp add: u_def power_int_diff)
  ultimately have "2 ^ 52 \<le> round_half_even (x / u)" by (intro rhe_ge) simp
  then have "of_int (2 ^ 52) * u \<le> of_int (round_half_even (x / u)) * u"
    using u by (intro mult_right_mono) (simp_all only: of_int_le_iff)
  moreover have "of_int (2 ^ 52) * u = 2 powi (ilog2 x)"
    by (simp add: u_def power_int_diff)
  ultimately show ?thesis by (simp add: round_pos_def u_def [symmetric] Let_def)
qed

lemma ilog2_le_52:
  assumes "0 < x" "x < 2 ^ 53"
  shows "ilog2 x \<le> 52"
proof -
  have "2 powi (ilog2 x) \<le> x" using assms(1) by (rule ilog2_bounds)
  also have "x < 2 powi 53" using assms(2) by simp
  finally have "(2::rat) powi (ilog2 x) < 2 powi 53" .
  then have "ilog2 x < 53" by (rule power_int_le_imp_less_exp [rotated]) simp_all
  then show ?thesis by simp
qed

lemma round_pos_le_int:
  assumes "0 < x" "x < 2 ^ 53" "x \<le> of_int n"
  shows "round_pos x \<le> of_int n"
proof -
  define k where "k = nat (52 - ilog2 x)"
  define u :: rat where "u = 2 powi (ilog2 x - 52)"
  have e: "ilog2 x \<le> 52" using assms(1,2) by (rule ilog2_le_52)
  have u: "0 < u" by (simp add: u_def)
  have uk: "u * 2 ^ k = 1" using e by (simp add: u_def k_def power_int_def field_simps flip: power_mult_distrib)
  have xu: "x / u = x * 2 ^ k" using uk u by (simp add: field_simps)
  have "x * 2 ^ k \<le> of_int (n * 2 ^ k)" using assms(3) by simp
  then have "round_half_even (x / u) \<le> n * 2 ^ k" unfolding xu by (rule rhe_le)
  then have "of_int (round_half_even (x / u)) * u \<le> of_int (n * 2 ^ k) * u"
    using u by (intro mult_right_mono) (simp_all only: of_int_le_iff)
  also have "\<dots> = of_int n * (u * 2 ^ k)" by simp
  finally have "of_int (round_half_even (x / u)) * u \<le> of_int n" by (simp only: uk mult_1_right)
  then show ?thesis by (simp add: round_pos_def u_def [symmetric] Let_def)
qed

lemma round_pos_ge_int:
  assumes "0 < x" "x < 2 ^ 53" "of_int n \<le> x"
  shows "of_int n \<le> round_pos x"
proof -
  define k where "k = nat (52 - ilog2 x)"
  define u :: rat where "u = 2 powi (ilog2 x - 52)"
  have e: "ilog2 x \<le> 52" using assms(1,2) by (rule ilog2_le_52)
  have u: "0 < u" by (simp add: u_def)
  have uk: "u * 2 ^ k = 1" using e by (simp add: u_def k_def power_int_def field_simps flip: power_mult_distrib)
  have xu: "x / u = x * 2 ^ k" using uk u by (simp add: field_simps)
  have "of_int (n * 2 ^ k) \<le> x * 2 ^ k" using assms(3) by simp
  then have "n * 2 ^ k \<le> round_half_even (x / u)" unfolding xu by (rule rhe_ge)
  then have "of_int (n * 2 ^ k) * u \<le> of_int (round_half_even (x / u)) * u"
    using u by (intro mult_right_mono) (simp_all only: of_int_le_iff)
  moreover have "of_int (n * 2 ^ k) * u = of_int n * (u * 2 ^ k)" by simp
  ultimately have "of_int n \<le> of_int (round_half_even (x / u)) * u" by (simp only: uk mult_1_right)
  then show ?thesis by (simp add: round_pos_def u_def [symmetric] Let_def)
qed

lemma round_f64_exact:
  assumes "0 < n" "n < 2 ^ 53"
  shows "round_f64 (of_int n) = of_int n"
proof -
  have pos: "(0::rat) < of_int n" using assms(1) by simp
  have "(of_int n :: rat) < of_int (2 ^ 53)" using assms(2) by (simp only: of_int_less_iff)
  then have lt: "(of_int n :: rat) < 2 ^ 53" by simp
  have "round_pos (of_int n) \<le> of_int n" by (rule round_pos_le_int [OF pos lt]) simp
  moreover have "of_int n \<le> round_pos (of_int n)" by (rule round_pos_ge_int [OF pos lt]) simp
  ultimately show ?thesis using pos by (simp add: round_f64_def)
qed


lemma round_f64_pos: "0 < x \<Longrightarrow> round_f64 x = round_pos x"
  by (simp add: round_f64_def)

lemma ceil_quotient_small:
  assumes N: "0 < N" "N < 2 ^ 53" and c: "0 < c" "c < 2 ^ 53"
  shows "\<lceil>round_pos (of_int N / of_int c)\<rceil> = (N + c - 1) div c"
proof -
  define x :: rat where "x = of_int N / of_int c"
  define K where "K = (N + c - 1) div c"
  have cpos: "(0::rat) < of_int c" using c by simp
  have Npos: "(0::rat) < of_int N" using N by simp
  have x: "0 < x" using cpos Npos by (simp add: x_def)
  have "(of_int N :: rat) < of_int (2 ^ 53)" using N(2) by (simp only: of_int_less_iff)
  then have N53: "(of_int N :: rat) < 2 ^ 53" by simp
  have "1 \<le> c" using c by simp
  then have c1: "(1::rat) \<le> of_int c" by simp
  have "x \<le> of_int N" using c1 Npos by (simp add: x_def pos_divide_le_eq mult_left_mono [of 1 "of_int c" "of_int N", simplified])
  then have x53: "x < 2 ^ 53" using N53 by simp
  have Kc: "N \<le> K * c" 
  proof -
    have "N + c - 1 = K * c + (N + c - 1) mod c" by (simp add: K_def)
    moreover have "(N + c - 1) mod c \<le> c - 1" using c(1) pos_mod_bound [of c "N + c - 1"] by simp
    ultimately show ?thesis by linarith
  qed
  have Kc': "(K - 1) * c \<le> N - 1"
  proof -
    have "N + c - 1 = K * c + (N + c - 1) mod c" by (simp add: K_def)
    moreover have "0 \<le> (N + c - 1) mod c" using c(1) by simp
    ultimately show ?thesis by (simp add: algebra_simps) 
  qed
  have "(of_int N :: rat) \<le> of_int (K * c)" using Kc by (simp only: of_int_le_iff)
  then have "x \<le> of_int K" using cpos by (simp add: x_def pos_divide_le_eq)
  then have up: "round_pos x \<le> of_int K" by (rule round_pos_le_int [OF x x53])
  have "(of_int ((K - 1) * c) :: rat) \<le> of_int (N - 1)" using Kc' by (simp only: of_int_le_iff)
  then have "(of_int K - 1) * of_int c + 1 \<le> (of_int N :: rat)" by simp
  then have gap: "of_int K - 1 + 1 / of_int c \<le> x"
    using cpos by (simp add: x_def pos_le_divide_eq distrib_right)
  have "\<bar>round_pos x - x\<bar> \<le> 2 powi (ilog2 x - 53)" by (rule round_pos_err [OF x])
  also have "\<dots> = 2 powi (ilog2 x) / 2 ^ 53" by (simp add: power_int_diff)
  also have "\<dots> \<le> x / 2 ^ 53" using ilog2_bounds(1) [OF x] by (simp add: divide_right_mono)
  also have "\<dots> < 1 / of_int c"
    using N53 cpos by (simp add: x_def field_simps)
  finally have "x - 1 / of_int c < round_pos x" by (simp add: abs_if split: if_splits)
  with gap have lo: "of_int K - 1 < round_pos x" by simp
  show ?thesis unfolding x_def [symmetric] K_def [symmetric]
    using lo up by (simp add: ceiling_eq_iff)
qed

lemma round_pos_big:
  assumes "2 ^ 53 \<le> c"
  shows "(2::rat) ^ 53 \<le> round_pos (of_int c)"
proof -
  have "(of_int (2 ^ 53) :: rat) \<le> of_int c" using assms by (simp only: of_int_le_iff)
  then have c53: "(2::rat) ^ 53 \<le> of_int c" by simp
  then have pos: "(0::rat) < of_int c" by (rule less_le_trans [rotated]) simp
  have "(2::rat) powi 53 \<le> of_int c" using c53 by simp
  also have "\<dots> < 2 powi (ilog2 (of_int c) + 1)" by (rule ilog2_bounds(2) [OF pos])
  finally have lt: "(2::rat) powi 53 < 2 powi (ilog2 (of_int c) + 1)" .
  have "53 < ilog2 (of_int c) + 1"
  proof (rule ccontr)
    assume "\<not> 53 < ilog2 (of_int c) + 1"
    then have "ilog2 (of_int c) + 1 \<le> 53" by simp
    then have "(2::rat) powi (ilog2 (of_int c) + 1) \<le> 2 powi 53"
      by (intro power_int_increasing) simp_all
    with lt show False by simp
  qed
  then have "(2::rat) powi 53 \<le> 2 powi (ilog2 (of_int c))"
    by (intro power_int_increasing) simp_all
  also have "\<dots> \<le> round_pos (of_int c)" by (rule round_pos_ge_pow [OF pos])
  finally show ?thesis by simp
qed


lemma ceil_quotient_big:
  assumes N: "0 < N" "N < 2 ^ 53" and c: "2 ^ 53 \<le> c"
  shows "\<lceil>round_pos (of_int N / round_pos (of_int c))\<rceil> = (N + c - 1) div c"
proof -
  define fc where "fc = round_pos (of_int c)"
  define x :: rat where "x = of_int N / fc"
  have fc: "2 ^ 53 \<le> fc" unfolding fc_def using c by (rule round_pos_big)
  then have fcpos: "0 < fc" by (rule less_le_trans [rotated]) simp
  have Npos: "(0::rat) < of_int N" using N by simp
  have "(of_int N :: rat) < of_int (2 ^ 53)" using N(2) by (simp only: of_int_less_iff)
  then have N53: "(of_int N :: rat) < 2 ^ 53" by simp
  have x: "0 < x" using fcpos Npos by (simp add: x_def)
  have "of_int N < fc" using N53 fc by simp
  then have x1: "x < 1" using fcpos by (simp add: x_def)
  then have x53: "x < 2 ^ 53" by (rule less_trans) simp
  have "round_pos x \<le> of_int 1" by (rule round_pos_le_int [OF x x53]) (use x1 in simp)
  moreover have "0 < round_pos x"
    by (rule less_le_trans [OF _ round_pos_ge_pow [OF x]]) simp
  ultimately have "\<lceil>round_pos x\<rceil> = 1" by (simp add: ceiling_eq_iff)
  moreover have "(N + c - 1) div c = 1"
  proof -
    have "N < c" using N(2) c by simp
    then show ?thesis using N(1) by (intro int_div_pos_eq [where r = "N - 1"]) simp_all
  qed
  ultimately show ?thesis by (simp add: x_def fc_def)
qed

lemma f64_ceil_div:
  assumes "0 < N" "N < 2 ^ 53" "0 < c"
  shows "\<lceil>f64_div (float64_of_int N) (float64_of_int c)\<rceil> = (N + c - 1) div c"
proof -
  have fN: "float64_of_int N = of_int N"
    unfolding float64_of_int_def using assms(1,2) by (rule round_f64_exact)
  have cpos: "(0::rat) < of_int c" using assms by simp
  have fc: "float64_of_int c = round_pos (of_int c)"
    unfolding float64_of_int_def using cpos by (rule round_f64_pos)
  show ?thesis
  proof (cases "c < 2 ^ 53")
    case True
    have c': "round_pos (of_int c) = of_int c"
      using round_f64_exact [OF assms(3) True] round_f64_pos [OF cpos] by simp
    have "(0::rat) < of_int N / of_int c" using assms by simp
    then have "f64_div (of_int N) (of_int c) = round_pos (of_int N / of_int c)"
      unfolding f64_div_def by (rule round_f64_pos)
    then show ?thesis
      unfolding fN fc c' using ceil_quotient_small [OF assms(1,2,3) True] by simp
  next
    case False
    then have c: "2 ^ 53 \<le> c" by simp
    have "(2::rat) ^ 53 \<le> round_pos (of_int c)" using c by (rule round_pos_big)
    then have "0 < round_pos (of_int c)" by (rule less_le_trans [rotated]) simp
    then have "(0::rat) < of_int N / round_pos (of_int c)" using assms by simp
    then have "f64_div (of_int N) (round_pos (of_int c)) = round_pos (of_int N / round_pos (of_int c))"
      unfolding f64_div_def by (rule round_f64_pos)
    then show ?thesis
      unfolding fN fc using ceil_quotient_big [OF assms(1,2) c] by simp
  qed
qed
subsection \<open>Traces\<close>

lemma requests_of_append [simp]: "requests_of (xs @ ys) = requests_of xs @ requests_of ys"
  by (simp add: requests_of_def)

lemma requests_of_simps [simp]:
  "requests_of [] = []"
  "requests_of (Request r # evs) = r # requests_of evs"
  "requests_of (Sleep d # evs) = requests_of evs"
  "requests_of (ProgressCall a b # evs) = requests_of evs"
  "requests_of (FsOp op # evs) = requests_of evs"
  "requests_of (RemuxCall p # evs) = requests_of evs"
  by (simp_all add: requests_of_def)

subsection \<open>Evaluation on concrete worlds\<close>

text \<open>The paths and names of the concrete worlds.\<close>

lemma path_evals:
  "filepath_Join ''downloads'' ''f'' = ''downloads/f''"
  "filepath_Join ''downloads'' ''segments_20240101_000000'' = ''downloads/segments_20240101_000000''"
  "segment_name 0 = ''segment_00000''"
  "segment_name 1 = ''segment_00001''"
  "segment_name 2 = ''segment_00002''"
  "segment_name (Suc 0) = ''segment_00001''"
  "segment_name (Suc (Suc 0)) = ''segment_00002''"
  "filepath_Join ''downloads/segments_20240101_000000'' ''segment_00000''
     = ''downloads/segments_20240101_000000/segment_00000''"
  "filepath_Join ''downloads/segments_20240101_000000'' ''segment_00001''
     = ''downloads/segments_20240101_000000/segment_00001''"
  "filepath_Join ''downloads/segments_20240101_000000'' ''segment_00002''
     = ''downloads/segments_20240101_000000/segment_00002''"
  by code_simp+

text \<open>The definitions of the embedding, for running it on a concrete world by rewriting.\<close>

lemmas world_defs =
  DownloadFile_def DownloadFileInMemory_def DownloadSegments_def DefaultConfig_def
  runChunkedDownload_def getFileSize_def http_Do_def downloadInMemory_def
  head_request_def chunk_request_def get_request_def os_Create_def file_Truncate_def
  fs_call_def ensureDownloadDir_def os_MkdirAll_def av_RemuxFile_def chunk_goroutine_def
  downloadChunkWithRetry_def downloadChunk_def writeChunkToFile_def file_WriteAt_def
  os_Remove_def os_RemoveAll_def under_def schedule_order_def dl_init_def errOnce_Do_def
  downloadCtx_def tick_def emit_def chunk_size_def wrap64_def
  string_of_int_def resize_def write_at_def segment_config_def
  env0_def world0_def background_def cancelled_after_def server_def url_server_def
  picky_remux_def truncate_fails_def Let_def retry_loop.simps string_of_nat.simps path_evals

subsection \<open>\<^verbatim>\<open>createChunks\<close>: the partition of the file\<close>

lemma wrap64_id: "- (2 ^ 63) \<le> x \<Longrightarrow> x < 2 ^ 63 \<Longrightarrow> wrap64 x = x"
  unfolding wrap64_def by (simp add: mod_pos_pos_trivial)

lemma ceil_div_bounds:
  assumes "0 < (N::int)" "0 < c"
  shows "(((N + c - 1) div c) - 1) * c < N" and "N \<le> ((N + c - 1) div c) * c"
    and "1 \<le> (N + c - 1) div c" and "(N + c - 1) div c \<le> N"
proof -
  define K where "K = (N + c - 1) div c"
  have eq: "N + c - 1 = K * c + (N + c - 1) mod c" by (simp add: K_def)
  have m: "0 \<le> (N + c - 1) mod c" "(N + c - 1) mod c < c" using assms(2) by simp_all
  show lo: "(((N + c - 1) div c) - 1) * c < N" using eq m unfolding K_def [symmetric] by (simp add: algebra_simps)
  show hi: "N \<le> ((N + c - 1) div c) * c" using eq m unfolding K_def [symmetric] by linarith
  have "0 < K * c" using hi assms(1) unfolding K_def [symmetric] by linarith
  then have "0 < K" using assms(2) by (simp add: zero_less_mult_iff)
  then show "1 \<le> (N + c - 1) div c" unfolding K_def by simp
  have "(K - 1) * 1 \<le> (K - 1) * c" using \<open>0 < K\<close> assms(2) by (intro mult_left_mono) simp_all
  with lo show "(N + c - 1) div c \<le> N" unfolding K_def [symmetric] by simp
qed

lemma numChunks_exact:
  assumes "0 < N" "N < 2 ^ 53" "0 < c"
  shows "int_of_float64 (math_Ceil (f64_div (float64_of_int N) (float64_of_int c))) = (N + c - 1) div c"
proof -
  have K: "1 \<le> (N + c - 1) div c" "(N + c - 1) div c \<le> N"
    using ceil_div_bounds [OF assms(1,3)] by simp_all
  have "(N + c - 1) div c < 2 ^ 63" using K(2) assms(2) by simp
  then show ?thesis using K(1)
    by (simp add: math_Ceil_def f64_ceil_div [OF assms] int_of_float64_def)
qed


lemma chunk_at_eq:
  assumes N: "0 < N" "N < 2 ^ 53" and c: "0 < c" "c < 2 ^ 63" and i: "0 \<le> i" "i * c < N"
  shows "chunk_at N c i = (i * c, min (i * c + c - 1) (N - 1))"
proof -
  have ic0: "0 \<le> i * c" using i(1) c(1) by simp
  have s: "wrap64 (i * c) = i * c" using ic0 i(2) N(2) by (intro wrap64_id) simp_all
  have sc: "i * c + c < 2 ^ 63"
  proof (cases "i = 0")
    case True
    then show ?thesis using c(2) by simp
  next
    case False
    then have "1 \<le> i" using i(1) by simp
    then have "1 * c \<le> i * c" using c(1) by (intro mult_right_mono) simp_all
    then have "i * c + c < N + N" using i(2) by simp
    then show ?thesis using N(2) by simp
  qed
  have e1: "wrap64 (i * c + c) = i * c + c" using ic0 c(1) sc by (intro wrap64_id) simp_all
  have e2: "wrap64 (i * c + c - 1) = i * c + c - 1" using ic0 c(1) sc by (intro wrap64_id) simp_all
  have n1: "wrap64 (N - 1) = N - 1" using N by (intro wrap64_id) simp_all
  show ?thesis unfolding chunk_at_def Let_def s e1 e2 n1 by (simp add: min_def)
qed

lemma createChunks_eq:
  assumes N: "0 < N" "N < 2 ^ 53" and c: "0 < c" "c < 2 ^ 63"
  shows "createChunks N c =
           Inr (map (\<lambda>i. (i * c, min (i * c + c - 1) (N - 1))) [0..(N + c - 1) div c - 1])"
proof -
  define K where "K = (N + c - 1) div c"
  have K: "(K - 1) * c < N" "1 \<le> K"
    using ceil_div_bounds [OF N(1) c(1)] by (simp_all add: K_def)
  have num: "int_of_float64 (math_Ceil (f64_div (float64_of_int N) (float64_of_int c))) = K"
    unfolding K_def using N c(1) by (rule numChunks_exact)
  have "map (chunk_at N c) [0..K - 1] = map (\<lambda>i. (i * c, min (i * c + c - 1) (N - 1))) [0..K - 1]"
  proof (rule map_cong [OF refl])
    fix i assume "i \<in> set [0..K - 1]"
    then have i: "0 \<le> i" "i \<le> K - 1" by simp_all
    then have "i * c \<le> (K - 1) * c" using c(1) by (intro mult_right_mono) simp_all
    then have "i * c < N" using K(1) by simp
    then show "chunk_at N c i = (i * c, min (i * c + c - 1) (N - 1))"
      using N c i(1) by (intro chunk_at_eq)
  qed
  then show ?thesis
    using N(1) c(1) K(2) unfolding createChunks_def num Let_def K_def [symmetric] by simp
qed

lemma upto_as_upt: "0 \<le> K \<Longrightarrow> [0..K - 1] = map int [0..<nat K]"
proof (induction "nat K" arbitrary: K)
  case 0
  then show ?case by simp
next
  case (Suc n)
  then have K: "nat K = Suc n" "0 < K" by simp_all
  have n: "n = nat (K - 1)" using K by simp
  have "[0..K - 1] = [0..K - 1 - 1] @ [K - 1]" using K(2) by (intro upto_rec2) simp
  also have "[0..K - 1 - 1] = map int [0..<nat (K - 1)]" using Suc(1) [OF n] K(2) by simp
  finally show ?case using K by (simp add: n [symmetric])
qed


lemma chunk_size_closed:
  assumes c: "0 < c" "c < 2 ^ 63" and i: "0 \<le> i * c" "i * c < N"
  shows "chunk_size (i * c, min (i * c + c - 1) (N - 1)) = min (i * c + c) N - i * c"
proof -
  define d where "d = min (i * c + c - 1) (N - 1) - i * c"
  have d: "0 \<le> d" "d \<le> c - 1" using c i by (simp_all add: d_def min_def)
  have w1: "wrap64 d = d" using d c by (intro wrap64_id) simp_all
  have w2: "wrap64 (d + 1) = d + 1" using d c by (intro wrap64_id) simp_all
  show ?thesis unfolding chunk_size_def fst_conv snd_conv d_def [symmetric] w1 w2
    by (simp add: d_def min_def)
qed

lemma sum_chunk_sizes:
  assumes c: "0 < c" "c < 2 ^ 63" and m: "(int m - 1) * c < N" and N: "0 < N"
  shows "sum_list (map (\<lambda>k. chunk_size (int k * c, min (int k * c + c - 1) (N - 1))) [0..<m])
           = min (int m * c) N"
  using m
proof (induction m)
  case 0
  then show ?case using N by simp
next
  case (Suc m)
  have mc: "int m * c < N" using Suc.prems by (simp add: algebra_simps)
  have "(int m - 1) * c \<le> int m * c" using c(1) by (intro mult_right_mono) simp_all
  then have "(int m - 1) * c < N" using mc by simp
  then have IH: "sum_list (map (\<lambda>k. chunk_size (int k * c, min (int k * c + c - 1) (N - 1))) [0..<m])
           = min (int m * c) N" by (rule Suc.IH)
  have sz: "chunk_size (int m * c, min (int m * c + c - 1) (N - 1)) = min (int m * c + c) N - int m * c"
    using c mc by (intro chunk_size_closed) simp_all
  define f where "f = (\<lambda>k. chunk_size (int k * c, min (int k * c + c - 1) (N - 1)))"
  have "sum_list (map f [0..<Suc m]) = sum_list (map f [0..<m]) + f m" by simp
  also have "\<dots> = min (int m * c) N + (min (int m * c + c) N - int m * c)"
    using IH sz by (simp add: f_def)
  also have "\<dots> = min (int (Suc m) * c) N" using mc by (simp add: min_def algebra_simps)
  finally show ?case unfolding f_def .
qed

text \<open>
  Claim C1, as amended. For every file size \<open>N\<close> with \<open>0 < N < 2\<^sup>5\<^sup>3\<close> and every positive
  chunk size (an \<^verbatim>\<open>int\<close>, so below \<open>2\<^sup>6\<^sup>3\<close>), \<^verbatim>\<open>createChunks\<close> returns a list of chunks
  that covers \<open>[0, N)\<close> exactly: the list is not empty, its first chunk starts at 0, its
  last chunk ends at \<open>N - 1\<close>, each chunk starts one byte after the end of the chunk
  before it, every chunk but the last has size \<^verbatim>\<open>chunkSize\<close>, the last has a size
  between 1 and \<^verbatim>\<open>chunkSize\<close>, the sizes add up to \<open>N\<close>, and the union of the byte
  ranges is \<open>{0..<N}\<close>. Below \<open>2\<^sup>5\<^sup>3\<close> the quotient computed in \<^verbatim>\<open>float64\<close> has the
  ceiling of the exact quotient (\<open>f64_ceil_div\<close>).
\<close>

theorem createChunks_partition:
  assumes N: "0 < fileSize" "fileSize < 2 ^ 53" and c: "0 < chunkSize" "chunkSize < 2 ^ 63"
  shows "\<exists>chunks. createChunks fileSize chunkSize = Inr chunks
           \<and> chunks \<noteq> []
           \<and> fst (hd chunks) = 0
           \<and> snd (last chunks) = fileSize - 1
           \<and> (\<forall>i. Suc i < length chunks \<longrightarrow>
                  fst (chunks ! Suc i) = snd (chunks ! i) + 1 \<and> chunk_size (chunks ! i) = chunkSize)
           \<and> 0 < chunk_size (last chunks) \<and> chunk_size (last chunks) \<le> chunkSize
           \<and> sum_list (map chunk_size chunks) = fileSize
           \<and> (\<Union>ch \<in> set chunks. {fst ch..snd ch}) = {0..<fileSize}"
proof -
  define K where "K = (fileSize + chunkSize - 1) div chunkSize"
  define n where "n = nat K"
  define g where "g = (\<lambda>k. (int k * chunkSize, min (int k * chunkSize + chunkSize - 1) (fileSize - 1)))"
  define chunks where "chunks = map g [0..<n]"
  have K: "(K - 1) * chunkSize < fileSize" "fileSize \<le> K * chunkSize" "1 \<le> K"
    using ceil_div_bounds [OF N(1) c(1)] by (simp_all add: K_def)
  have n: "0 < n" "int n = K" using K(3) by (simp_all add: n_def)
  have cc: "createChunks fileSize chunkSize = Inr chunks"
    unfolding chunks_def g_def n_def K_def
    using createChunks_eq [OF N c] upto_as_upt [of "(fileSize + chunkSize - 1) div chunkSize"] K(3)
    by (simp add: K_def comp_def)
  have len: "length chunks = n" by (simp add: chunks_def)
  have nth: "chunks ! k = g k" if "k < n" for k using that by (simp add: chunks_def)
  have below: "int k * chunkSize < fileSize" if "k < n" for k
  proof -
    have "int k \<le> K - 1" using that n(2) by simp
    then have "int k * chunkSize \<le> (K - 1) * chunkSize" using c(1) by (intro mult_right_mono) simp_all
    then show ?thesis using K(1) by simp
  qed
  have inner: "int k * chunkSize + chunkSize - 1 < fileSize - 1 + 1 \<and> int k * chunkSize + chunkSize \<le> fileSize"
    if "Suc k < n" for k
  proof -
    have "int (Suc k) * chunkSize < fileSize" using that by (rule below)
    then show ?thesis by (simp add: algebra_simps)
  qed
  have nonempty: "chunks \<noteq> []" using n(1) len by auto
  have hd0: "fst (hd chunks) = 0"
    using nonempty nth [OF n(1)] by (simp add: hd_conv_nth g_def)
  have lastK: "last chunks = g (n - 1)"
    using nonempty nth [of "n - 1"] n(1) by (simp add: last_conv_nth len)
  have Kn: "int (n - 1) = K - 1" using n by simp
  have lastsnd: "snd (last chunks) = fileSize - 1"
    unfolding lastK g_def Kn using K(2) by (simp add: min_def algebra_simps)
  have adj: "fst (chunks ! Suc i) = snd (chunks ! i) + 1 \<and> chunk_size (chunks ! i) = chunkSize"
    if "Suc i < length chunks" for i
  proof -
    have i: "Suc i < n" "i < n" using that len by simp_all
    have b: "0 \<le> int i * chunkSize" using c(1) by simp
    have sz: "chunk_size (g i) = min (int i * chunkSize + chunkSize) fileSize - int i * chunkSize"
      unfolding g_def using c b below [OF i(2)] by (intro chunk_size_closed)
    show ?thesis using inner [OF i(1)] 
      by (simp add: nth i sz) (simp add: g_def min_def algebra_simps)
  qed
  have lastsz: "chunk_size (last chunks) = min (K * chunkSize) fileSize - (K - 1) * chunkSize"
  proof -
    have "chunk_size (g (n - 1)) =
            min (int (n - 1) * chunkSize + chunkSize) fileSize - int (n - 1) * chunkSize"
      unfolding g_def using c below [of "n - 1"] n(1) by (intro chunk_size_closed) simp_all
    then show ?thesis unfolding lastK Kn by (simp add: algebra_simps)
  qed
  have lastpos: "0 < chunk_size (last chunks)" "chunk_size (last chunks) \<le> chunkSize"
    unfolding lastsz using K by (simp_all add: min_def algebra_simps)
  have total: "sum_list (map chunk_size chunks) = fileSize"
  proof -
    have "sum_list (map chunk_size chunks) = min (int n * chunkSize) fileSize"
      unfolding chunks_def g_def map_map comp_def
      using c K(1) N(1) by (intro sum_chunk_sizes) (simp_all add: n(2))
    then show ?thesis using K(2) by (simp add: n(2))
  qed
  have cover: "(\<Union>ch \<in> set chunks. {fst ch..snd ch}) = {0..<fileSize}"
  proof (rule set_eqI, rule iffI)
    fix x assume "x \<in> (\<Union>ch \<in> set chunks. {fst ch..snd ch})"
    then obtain k where k: "k < n" "x \<in> {fst (g k)..snd (g k)}"
      by (auto simp: chunks_def)
    have k0: "0 \<le> int k * chunkSize" using c(1) by simp
    have "int k * chunkSize \<le> x" "x \<le> fileSize - 1" using k(2) by (simp_all add: g_def)
    with k0 have "0 \<le> x" "x < fileSize" by linarith+
    then show "x \<in> {0..<fileSize}" by simp
  next
    fix x assume "x \<in> {0..<fileSize}"
    then have x: "0 \<le> x" "x < fileSize" by simp_all
    define k where "k = nat (x div chunkSize)"
    have d0: "0 \<le> x div chunkSize" using x(1) c(1) by (simp add: pos_imp_zdiv_nonneg_iff)
    have kd: "int k = x div chunkSize" using d0 by (simp add: k_def)
    define r where "r = x mod chunkSize"
    have xeq: "x = int k * chunkSize + r" by (simp add: kd r_def)
    have xm: "0 \<le> r" "r < chunkSize" using c(1) by (simp_all add: r_def)
    have lo: "int k * chunkSize \<le> x" using xeq xm(1) by linarith
    have hi: "x < int k * chunkSize + chunkSize" using xeq xm(2) by linarith
    have "k < n"
    proof (rule ccontr)
      assume "\<not> k < n"
      then have "K \<le> int k" using n(2) by simp
      then have "K * chunkSize \<le> int k * chunkSize" using c(1) by (intro mult_right_mono) simp_all
      with K(2) lo x(2) show False by simp
    qed
    moreover have "x \<in> {fst (g k)..snd (g k)}" using lo hi x by (simp add: g_def)
    ultimately show "x \<in> (\<Union>ch \<in> set chunks. {fst ch..snd ch})"
      by (auto simp: chunks_def)
  qed
  show ?thesis
    using cc nonempty hd0 lastsnd adj lastpos total cover by blast
qed

theorem createChunks_partition_witness:
  "\<exists>chunks. createChunks 10 3 = Inr chunks \<and> chunks \<noteq> [] \<and> fst (hd chunks) = 0
      \<and> snd (last chunks) = 9 \<and> sum_list (map chunk_size chunks) = 10
      \<and> (\<Union>ch \<in> set chunks. {fst ch..snd ch}) = {0..<10}"
proof -
  have "(0::int) < 10" "(10::int) < 2 ^ 53" "(0::int) < 3" "(3::int) < 2 ^ 63" by simp_all
  from createChunks_partition [OF this] show ?thesis by auto
qed

text \<open>
  The claim as it was stated includes \<open>N = 0\<close>. There the guard \<^verbatim>\<open>fileSize <= 0\<close> returns
  the single chunk \<open>[0, 0]\<close>, whose size is 1 and not 0.
\<close>

theorem createChunks_zero_counterexample:
  "createChunks 0 1024 = Inr [(0, 0)] \<and> sum_list (map chunk_size [(0, 0)]) \<noteq> 0"
  by (simp add: createChunks_def chunk_size_def wrap64_def)

subsection \<open>\<^verbatim>\<open>downloadChunkWithRetry\<close>: the exhaustion of the retries\<close>

lemma downloadChunk_trace:
  assumes "new_request_err E fileURL = None" "\<not> ctx (clock w)"
  shows "trace (snd (downloadChunk E ctx fileURL chunk timeout w))
           = trace w @ [Request (chunk_request fileURL chunk timeout)]"
  using assms
  by (simp add: downloadChunk_def http_Do_def emit_def tick_def split: sum.splits prod.splits)

lemma retry_loop_exhaust:
  assumes RA: "RetryAttempts config < 2 ^ 63 - 1"
      and ctx: "\<forall>t. \<not> ctx t"
      and url: "new_request_err E fileURL = None"
      and fails: "\<forall>w. isl (fst (downloadChunk E ctx fileURL chunk (Timeout config) w))"
      and a: "0 < a" "a \<le> RetryAttempts config + 1" "k = nat (RetryAttempts config + 1 - a)"
      and prev: "downloadChunk E ctx fileURL chunk (Timeout config) w0 = (Inl e0, w)"
  shows "\<exists>e w_last w'.
           retry_loop E ctx fileURL chunk config a (Some e0) w
             = (Inl (AllAttemptsFailed (RetryAttempts config + 1) (Some e)), w')
           \<and> downloadChunk E ctx fileURL chunk (Timeout config) w_last = (Inl e, w')
           \<and> trace w' = trace w @ concat (replicate k
                 [Sleep (RetryDelay config), Request (chunk_request fileURL chunk (Timeout config))])"
  using a prev
proof (induction k arbitrary: a e0 w w0)
  case 0
  then have "a = RetryAttempts config + 1" by simp
  moreover have "wrap64 (RetryAttempts config + 1) = RetryAttempts config + 1"
    using RA 0(1,2) by (simp add: wrap64_def mod_pos_pos_trivial)
  ultimately show ?case using 0 by (subst retry_loop.simps) auto
next
  case (Suc k)
  then have a: "a \<le> RetryAttempts config" by simp
  define w1 where "w1 = emit (Sleep (RetryDelay config)) (tick w)"
  obtain e1 w2 where d: "downloadChunk E ctx fileURL chunk (Timeout config) w1 = (Inl e1, w2)"
    using fails [rule_format, of w1]
    by (cases "downloadChunk E ctx fileURL chunk (Timeout config) w1") (auto simp: isl_def)
  have tr: "trace w2 = trace w @ [Sleep (RetryDelay config), Request (chunk_request fileURL chunk (Timeout config))]"
    using downloadChunk_trace [OF url, of ctx w1 chunk "Timeout config"] ctx d
    by (simp add: w1_def emit_def tick_def)
  have step: "retry_loop E ctx fileURL chunk config a (Some e0) w
                = retry_loop E ctx fileURL chunk config (a + 1) (Some e1) w2"
    using a Suc.prems(1) ctx d by (subst retry_loop.simps) (simp add: w1_def [symmetric])
  have "\<exists>e w_last w'.
           retry_loop E ctx fileURL chunk config (a + 1) (Some e1) w2
             = (Inl (AllAttemptsFailed (RetryAttempts config + 1) (Some e)), w')
           \<and> downloadChunk E ctx fileURL chunk (Timeout config) w_last = (Inl e, w')
           \<and> trace w' = trace w2 @ concat (replicate k
                 [Sleep (RetryDelay config), Request (chunk_request fileURL chunk (Timeout config))])"
    using Suc.prems a d by (intro Suc.IH) simp_all
  then show ?case unfolding step tr by auto
qed

text \<open>
  Claim C4, as amended. Let \<^verbatim>\<open>RetryAttempts\<close> be at least 0 (and not the largest integer),
  let the context never be cancelled, and let every call of \<^verbatim>\<open>downloadChunk\<close> for the
  chunk fail (its URL being one that \<^verbatim>\<open>http.NewRequest\<close> accepts). Then
  \<^verbatim>\<open>downloadChunkWithRetry\<close> hands exactly \<^verbatim>\<open>RetryAttempts + 1\<close> requests to the session,
  with one wait of \<^verbatim>\<open>RetryDelay\<close> between each two, and returns the error
  \<^verbatim>\<open>all RetryAttempts+1 attempts failed\<close> wrapping the error \<open>e\<close> of the last call of
  \<^verbatim>\<open>downloadChunk\<close>, the call that left the final world.
\<close>

theorem retry_exhaustion:
  assumes RA: "0 \<le> RetryAttempts config" "RetryAttempts config < 2 ^ 63 - 1"
      and ctx: "\<forall>t. \<not> ctx t"
      and url: "new_request_err E fileURL = None"
      and fails: "\<forall>w. isl (fst (downloadChunk E ctx fileURL chunk (Timeout config) w))"
  shows "\<exists>e w_last w'.
           downloadChunkWithRetry E ctx fileURL chunk config w
             = (Inl (AllAttemptsFailed (RetryAttempts config + 1) (Some e)), w')
           \<and> downloadChunk E ctx fileURL chunk (Timeout config) w_last = (Inl e, w')
           \<and> trace w' = trace w @ Request (chunk_request fileURL chunk (Timeout config))
                # concat (replicate (nat (RetryAttempts config))
                    [Sleep (RetryDelay config), Request (chunk_request fileURL chunk (Timeout config))])"
proof -
  obtain e0 w1 where d: "downloadChunk E ctx fileURL chunk (Timeout config) w = (Inl e0, w1)"
    using fails [rule_format, of w]
    by (cases "downloadChunk E ctx fileURL chunk (Timeout config) w") (auto simp: isl_def)
  have tr: "trace w1 = trace w @ [Request (chunk_request fileURL chunk (Timeout config))]"
    using downloadChunk_trace [OF url, of ctx w chunk "Timeout config"] ctx d by simp
  have step: "downloadChunkWithRetry E ctx fileURL chunk config w
                = retry_loop E ctx fileURL chunk config 1 (Some e0) w1"
    unfolding downloadChunkWithRetry_def using RA(1) d by (subst retry_loop.simps) simp
  have "\<exists>e w_last w'.
           retry_loop E ctx fileURL chunk config 1 (Some e0) w1
             = (Inl (AllAttemptsFailed (RetryAttempts config + 1) (Some e)), w')
           \<and> downloadChunk E ctx fileURL chunk (Timeout config) w_last = (Inl e, w')
           \<and> trace w' = trace w1 @ concat (replicate (nat (RetryAttempts config + 1 - 1))
                 [Sleep (RetryDelay config), Request (chunk_request fileURL chunk (Timeout config))])"
    using RA(1) by (intro retry_loop_exhaust [OF RA(2) ctx url fails _ _ _ d]) simp_all
  then show ?thesis unfolding step tr by auto
qed

theorem retry_exhaustion_witness:
  "fst (downloadChunkWithRetry (env0 (server 200 10 500 [])) background ''u'' (0, 9) DefaultConfig world0)
     = Inl (AllAttemptsFailed 4 (Some (UnexpectedStatusCode 500)))
   \<and> trace (snd (downloadChunkWithRetry (env0 (server 200 10 500 [])) background ''u'' (0, 9)
                   DefaultConfig world0))
     = [Request (chunk_request ''u'' (0, 9) 30000000000), Sleep 2000000000,
        Request (chunk_request ''u'' (0, 9) 30000000000), Sleep 2000000000,
        Request (chunk_request ''u'' (0, 9) 30000000000), Sleep 2000000000,
        Request (chunk_request ''u'' (0, 9) 30000000000)]"
proof -
  define E where "E = env0 (server 200 10 500 [])"
  have h1: "0 \<le> RetryAttempts DefaultConfig" "RetryAttempts DefaultConfig < 2 ^ 63 - 1"
    by (simp_all add: DefaultConfig_def)
  have h2: "\<forall>t. \<not> background t" by (simp add: background_def)
  have h3: "new_request_err E ''u'' = None" by (simp add: E_def env0_def)
  have h4: "\<forall>w. isl (fst (downloadChunk E background ''u'' (0, 9) (Timeout DefaultConfig) w))"
    by (simp add: downloadChunk_def http_Do_def E_def env0_def server_def background_def
        chunk_request_def)
  obtain e w_last w' where
    r: "downloadChunkWithRetry E background ''u'' (0, 9) DefaultConfig world0
          = (Inl (AllAttemptsFailed (RetryAttempts DefaultConfig + 1) (Some e)), w')"
    and l: "downloadChunk E background ''u'' (0, 9) (Timeout DefaultConfig) w_last = (Inl e, w')"
    and t: "trace w' = trace world0 @ Request (chunk_request ''u'' (0, 9) (Timeout DefaultConfig))
              # concat (replicate (nat (RetryAttempts DefaultConfig))
                  [Sleep (RetryDelay DefaultConfig),
                   Request (chunk_request ''u'' (0, 9) (Timeout DefaultConfig))])"
    using retry_exhaustion [OF h1 h2 h3 h4, of world0] by blast
  have e: "e = UnexpectedStatusCode 500"
    using l by (simp add: downloadChunk_def http_Do_def E_def env0_def server_def background_def
        chunk_request_def)
  show ?thesis
    unfolding E_def [symmetric] r using t
    by (simp add: e DefaultConfig_def world0_def numeral_3_eq_3)
qed

text \<open>
  The claim as it was stated holds for no cancelled context: when the context is
  cancelled while the function waits before a retry, the \<^verbatim>\<open>select\<close> returns \<^verbatim>\<open>ctx.Err()\<close>
  at once. Against a server that always answers 500 and with the default three retries,
  one request is made, not four, and the error does not wrap that of the attempt.
\<close>

theorem retry_cancelled_counterexample:
  "fst (downloadChunkWithRetry (env0 (server 200 10 500 [])) (cancelled_after 1) ''u'' (0, 9)
          DefaultConfig world0) = Inl CtxErr
   \<and> requests_of (trace (snd (downloadChunkWithRetry (env0 (server 200 10 500 []))
          (cancelled_after 1) ''u'' (0, 9) DefaultConfig world0)))
       = [chunk_request ''u'' (0, 9) 30000000000]"
  by code_simp

subsection \<open>\<^verbatim>\<open>DownloadFileInMemory\<close>\<close>

lemma downloadInMemory_requests:
  "requests_of (trace (snd (downloadInMemory E ctx fileURL timeout w))) = requests_of (trace w)
   \<or> requests_of (trace (snd (downloadInMemory E ctx fileURL timeout w)))
       = requests_of (trace w) @ [get_request fileURL timeout]"
  by (simp add: downloadInMemory_def http_Do_def emit_def tick_def split: option.splits sum.splits)

lemma inmem_loop_requests:
  "\<exists>us. subseq us URLList
      \<and> requests_of (trace (snd (DownloadFileInMemory_loop E ctx URLList config errs w)))
          = requests_of (trace w) @ map (\<lambda>u. get_request u (Timeout config)) us"
proof (induction URLList arbitrary: errs w)
  case Nil
  show ?case by simp
next
  case (Cons u rest)
  show ?case
  proof (cases "ctx (clock w)")
    case True
    then have "requests_of (trace (snd (DownloadFileInMemory_loop E ctx (u # rest) config errs w)))
                 = requests_of (trace w) @ map (\<lambda>u. get_request u (Timeout config)) []"
      by (simp add: tick_def)
    then show ?thesis by (metis list_emb_Nil)
  next
    case False
    obtain r w1 where d: "downloadInMemory E ctx u (Timeout config) (tick w) = (r, w1)"
      by (cases "downloadInMemory E ctx u (Timeout config) (tick w)")
    have tr: "requests_of (trace w1) = requests_of (trace w)
              \<or> requests_of (trace w1) = requests_of (trace w) @ [get_request u (Timeout config)]"
      using downloadInMemory_requests [of E ctx u "Timeout config" "tick w"] d by (simp add: tick_def)
    then obtain pre where pre: "requests_of (trace w1) = requests_of (trace w) @ map (\<lambda>u. get_request u (Timeout config)) pre"
      "subseq pre [u]"
    proof
      assume "requests_of (trace w1) = requests_of (trace w)"
      then show ?thesis using that [of "[]"] by simp
    next
      assume "requests_of (trace w1) = requests_of (trace w) @ [get_request u (Timeout config)]"
      then show ?thesis using that [of "[u]"] by simp
    qed
    show ?thesis
    proof (cases r)
      case (Inr data)
      then have "requests_of (trace (snd (DownloadFileInMemory_loop E ctx (u # rest) config errs w)))
                   = requests_of (trace w) @ map (\<lambda>u. get_request u (Timeout config)) pre"
        using False d pre by simp
      moreover have "subseq pre (u # rest)"
        using list_emb_append_mono [OF pre(2) list_emb_Nil [of "(=)" rest]] by simp
      ultimately show ?thesis by blast
    next
      case (Inl err)
      obtain us where us: "subseq us rest"
        "requests_of (trace (snd (DownloadFileInMemory_loop E ctx rest config (errs @ [err]) w1)))
           = requests_of (trace w1) @ map (\<lambda>u. get_request u (Timeout config)) us"
        using Cons.IH by blast
      have "requests_of (trace (snd (DownloadFileInMemory_loop E ctx (u # rest) config errs w)))
              = requests_of (trace w) @ map (\<lambda>u. get_request u (Timeout config)) (pre @ us)"
        using False d Inl us(2) pre(1) by simp
      moreover have "subseq (pre @ us) ([u] @ rest)"
        using pre(2) us(1) by (rule list_emb_append_mono)
      ultimately show ?thesis by (metis append_Cons append_Nil)
    qed
  qed
qed

lemma inmem_loop_failed:
  "fst (DownloadFileInMemory_loop E ctx URLList config errs w) = Inl (ErrDownloadFailed es)
     \<Longrightarrow> length es = length errs + length URLList"
  by (induction URLList arbitrary: errs w) (auto split: if_splits prod.splits sum.splits)



lemma downloadInMemory_ok_200:
  assumes "downloadInMemory E ctx u t wa = (Inr data, wb)"
  shows "\<exists>resp. session_Do E (clock wa) (get_request u t) = Inr resp
           \<and> StatusCode resp = 200 \<and> Body resp = Inr data"
  using assms
  by (auto simp: downloadInMemory_def http_Do_def split: option.splits sum.splits if_splits)

lemma inmem_loop_step:
  "(\<exists>err w1. downloadInMemory E ctx u (Timeout config) (tick w) = (Inl err, w1) \<and> \<not> ctx (clock w)
       \<and> (\<forall>rest. DownloadFileInMemory_loop E ctx (u # rest) config errs w
                   = DownloadFileInMemory_loop E ctx rest config (errs @ [err]) w1))
   \<or> (\<exists>R. (\<forall>rest. DownloadFileInMemory_loop E ctx (u # rest) config errs w = R)
         \<and> (\<forall>es. fst R \<noteq> Inl (ErrDownloadFailed es))
         \<and> (\<forall>data. fst R = Inr data \<longrightarrow>
               (\<exists>w1. downloadInMemory E ctx u (Timeout config) (tick w) = (Inr data, w1))))"
proof (cases "ctx (clock w)")
  case True
  then show ?thesis by (intro disjI2 exI [of _ "(Inl CtxErr, tick w)"]) simp
next
  case False
  obtain r w1 where d: "downloadInMemory E ctx u (Timeout config) (tick w) = (r, w1)"
    by (cases "downloadInMemory E ctx u (Timeout config) (tick w)")
  show ?thesis
  proof (cases r)
    case (Inl err)
    then show ?thesis using False d by (intro disjI1 exI [of _ err] exI [of _ w1]) simp
  next
    case (Inr data)
    then show ?thesis using False d by (intro disjI2 exI [of _ "(Inr data, w1)"]) simp
  qed
qed

lemma inmem_loop_failed_causes:
  "fst (DownloadFileInMemory_loop E ctx URLList config errs w) = Inl (ErrDownloadFailed es)
     \<Longrightarrow> \<exists>es'. es = errs @ es' \<and> list_all2 (\<lambda>u e. \<exists>wa wb. downloadInMemory E ctx u (Timeout config) wa = (Inl e, wb)) URLList es'"
proof (induction URLList arbitrary: errs w)
  case Nil
  then show ?case by simp
next
  case (Cons u rest)
  from inmem_loop_step [of E ctx u config w errs]
  show ?case
  proof (elim disjE exE conjE)
    fix err w1
    assume f: "downloadInMemory E ctx u (Timeout config) (tick w) = (Inl err, w1)"
      and st: "\<forall>rest. DownloadFileInMemory_loop E ctx (u # rest) config errs w
                 = DownloadFileInMemory_loop E ctx rest config (errs @ [err]) w1"
    from Cons.prems st
    have "fst (DownloadFileInMemory_loop E ctx rest config (errs @ [err]) w1) = Inl (ErrDownloadFailed es)"
      by simp
    from Cons.IH [OF this] obtain es' where es': "es = (errs @ [err]) @ es'" "list_all2 (\<lambda>u e. \<exists>wa wb. downloadInMemory E ctx u (Timeout config) wa = (Inl e, wb)) rest es'"
      by (elim exE conjE)
    have "(\<lambda>u e. \<exists>wa wb. downloadInMemory E ctx u (Timeout config) wa = (Inl e, wb)) u err" using f by (intro exI)
    then have "list_all2 (\<lambda>u e. \<exists>wa wb. downloadInMemory E ctx u (Timeout config) wa = (Inl e, wb)) (u # rest) (err # es')"
      using es'(2) by (rule list_all2_Cons [THEN iffD2, OF conjI])
    then show ?thesis using es'(1) by (intro exI [of _ "err # es'"]) simp
  next
    fix R
    assume "\<forall>rest. DownloadFileInMemory_loop E ctx (u # rest) config errs w = R"
      and "\<forall>es. fst R \<noteq> Inl (ErrDownloadFailed es)"
    with Cons.prems show ?thesis by simp
  qed
qed

lemma inmem_loop_ok:
  "fst (DownloadFileInMemory_loop E ctx URLList config errs w) = Inr data
     \<Longrightarrow> \<exists>pre u post es'. URLList = pre @ u # post \<and> list_all2 (\<lambda>u e. \<exists>wa wb. downloadInMemory E ctx u (Timeout config) wa = (Inl e, wb)) pre es'
           \<and> (\<exists>wa wb resp. downloadInMemory E ctx u (Timeout config) wa = (Inr data, wb)
                 \<and> session_Do E (clock wa) (get_request u (Timeout config)) = Inr resp
                 \<and> StatusCode resp = 200 \<and> Body resp = Inr data)
           \<and> (\<forall>post'. DownloadFileInMemory_loop E ctx (pre @ u # post') config errs w
                        = DownloadFileInMemory_loop E ctx URLList config errs w)"
proof (induction URLList arbitrary: errs w)
  case Nil
  then show ?case by simp
next
  case (Cons u rest)
  from inmem_loop_step [of E ctx u config w errs]
  show ?case
  proof (elim disjE exE conjE)
    fix err w1
    assume f: "downloadInMemory E ctx u (Timeout config) (tick w) = (Inl err, w1)"
      and st: "\<forall>rest. DownloadFileInMemory_loop E ctx (u # rest) config errs w
                 = DownloadFileInMemory_loop E ctx rest config (errs @ [err]) w1"
    from Cons.prems st
    have "fst (DownloadFileInMemory_loop E ctx rest config (errs @ [err]) w1) = Inr data"
      by simp
    from Cons.IH [OF this] obtain pre u' post es' wa wb resp where
      split: "rest = pre @ u' # post" and fl: "list_all2 (\<lambda>u e. \<exists>wa wb. downloadInMemory E ctx u (Timeout config) wa = (Inl e, wb)) pre es'"
      and ok: "downloadInMemory E ctx u' (Timeout config) wa = (Inr data, wb)"
      and rs: "session_Do E (clock wa) (get_request u' (Timeout config)) = Inr resp"
              "StatusCode resp = 200" "Body resp = Inr data"
      and ind: "\<forall>post'. DownloadFileInMemory_loop E ctx (pre @ u' # post') config (errs @ [err]) w1
                          = DownloadFileInMemory_loop E ctx rest config (errs @ [err]) w1"
      by (elim exE conjE)
    have "(\<lambda>u e. \<exists>wa wb. downloadInMemory E ctx u (Timeout config) wa = (Inl e, wb)) u err" using f by (intro exI)
    then have fl': "list_all2 (\<lambda>u e. \<exists>wa wb. downloadInMemory E ctx u (Timeout config) wa = (Inl e, wb)) (u # pre) (err # es')"
      using fl by (rule list_all2_Cons [THEN iffD2, OF conjI])
    have sp: "u # rest = (u # pre) @ u' # post" using split by simp
    have ind': "\<forall>post'. DownloadFileInMemory_loop E ctx ((u # pre) @ u' # post') config errs w
                          = DownloadFileInMemory_loop E ctx (u # rest) config errs w"
      using st ind by simp
    show ?thesis
      by (intro exI conjI, rule sp, rule fl', rule ok, rule rs, rule rs, rule rs, rule ind')
  next
    fix R
    assume all: "\<forall>rest. DownloadFileInMemory_loop E ctx (u # rest) config errs w = R"
      and okR: "\<forall>data. fst R = Inr data \<longrightarrow>
               (\<exists>w1. downloadInMemory E ctx u (Timeout config) (tick w) = (Inr data, w1))"
    have R: "fst R = Inr data" using Cons.prems all by simp
    from okR [rule_format, OF R] obtain w1 where
      ok: "downloadInMemory E ctx u (Timeout config) (tick w) = (Inr data, w1)" by (elim exE)
    from downloadInMemory_ok_200 [OF ok] obtain resp where
      rs: "session_Do E (clock (tick w)) (get_request u (Timeout config)) = Inr resp"
          "StatusCode resp = 200" "Body resp = Inr data" by (elim exE conjE)
    have fl': "list_all2 (\<lambda>u e. \<exists>wa wb. downloadInMemory E ctx u (Timeout config) wa = (Inl e, wb)) [] []" by simp
    have sp: "u # rest = [] @ u # rest" by simp
    have ind': "\<forall>post'. DownloadFileInMemory_loop E ctx ([] @ u # post') config errs w
                          = DownloadFileInMemory_loop E ctx (u # rest) config errs w"
      using all by simp
    show ?thesis
      by (intro exI conjI, rule sp, rule fl', rule ok, rule rs, rule rs, rule rs, rule ind')
  qed
qed

lemma inmem_loop_all_fail:
  assumes nc: "\<forall>t. \<not> ctx t"
      and fails: "\<forall>u \<in> set URLList. \<forall>w'. isl (fst (downloadInMemory E ctx u (Timeout config) w'))"
  shows "\<exists>es. fst (DownloadFileInMemory_loop E ctx URLList config errs w) = Inl (ErrDownloadFailed es)"
  using fails
proof (induction URLList arbitrary: errs w)
  case Nil
  show ?case by simp
next
  case (Cons u rest)
  have "isl (fst (downloadInMemory E ctx u (Timeout config) (tick w)))"
    using Cons.prems by simp
  then obtain err w1 where d: "downloadInMemory E ctx u (Timeout config) (tick w) = (Inl err, w1)"
    by (cases "downloadInMemory E ctx u (Timeout config) (tick w)") (auto simp: isl_def)
  have "\<forall>u \<in> set rest. \<forall>w'. isl (fst (downloadInMemory E ctx u (Timeout config) w'))"
    using Cons.prems by simp
  moreover have "\<not> ctx (clock w)" using nc by simp
  ultimately show ?case using Cons.IH [of "errs @ [err]" w1] d by simp
qed

lemma inmem_loop_first_good:
  assumes nc: "\<forall>t. \<not> ctx t"
      and fails: "\<forall>v \<in> set pre. \<forall>w'. isl (fst (downloadInMemory E ctx v (Timeout config) w'))"
      and url: "new_request_err E u = None"
      and good: "\<forall>t. \<exists>resp. session_Do E t (get_request u (Timeout config)) = Inr resp
                         \<and> StatusCode resp = 200 \<and> Body resp = Inr data"
  shows "fst (DownloadFileInMemory_loop E ctx (pre @ u # post) config errs w) = Inr data
         \<and> (\<exists>us. subseq us pre
               \<and> requests_of (trace (snd (DownloadFileInMemory_loop E ctx (pre @ u # post) config errs w)))
                   = requests_of (trace w) @ map (\<lambda>v. get_request v (Timeout config)) (us @ [u]))"
  using fails
proof (induction pre arbitrary: errs w)
  case Nil
  obtain resp where r: "session_Do E (Suc (clock w)) (get_request u (Timeout config)) = Inr resp"
      "StatusCode resp = 200" "Body resp = Inr data"
    using good by blast
  have c: "\<not> ctx (clock w)" "\<not> ctx (Suc (clock w))" using nc by simp_all
  have "downloadInMemory E ctx u (Timeout config) (tick w)
          = (Inr data, emit (Request (get_request u (Timeout config))) (tick (tick w)))"
    using c url r by (simp add: downloadInMemory_def http_Do_def tick_def)
  then have a: "fst (DownloadFileInMemory_loop E ctx ([] @ u # post) config errs w) = Inr data"
    and b: "requests_of (trace (snd (DownloadFileInMemory_loop E ctx ([] @ u # post) config errs w)))
              = requests_of (trace w) @ map (\<lambda>v. get_request v (Timeout config)) ([] @ [u])"
    using c by (simp_all add: emit_def tick_def)
  have "subseq [] ([] :: string list)" by simp
  with a b show ?case by blast
next
  case (Cons v pre)
  have "isl (fst (downloadInMemory E ctx v (Timeout config) (tick w)))"
    using Cons.prems by simp
  then obtain err w1 where d: "downloadInMemory E ctx v (Timeout config) (tick w) = (Inl err, w1)"
    by (cases "downloadInMemory E ctx v (Timeout config) (tick w)") (auto simp: isl_def)
  have c: "\<not> ctx (clock w)" using nc by simp
  have st: "DownloadFileInMemory_loop E ctx ((v # pre) @ u # post) config errs w
              = DownloadFileInMemory_loop E ctx (pre @ u # post) config (errs @ [err]) w1"
    using c d by simp
  have "\<forall>v \<in> set pre. \<forall>w'. isl (fst (downloadInMemory E ctx v (Timeout config) w'))"
    using Cons.prems by simp
  from Cons.IH [OF this, of "errs @ [err]" w1] obtain us where
    a: "fst (DownloadFileInMemory_loop E ctx (pre @ u # post) config (errs @ [err]) w1) = Inr data"
    and us: "subseq us pre"
    and b: "requests_of (trace (snd (DownloadFileInMemory_loop E ctx (pre @ u # post) config (errs @ [err]) w1)))
              = requests_of (trace w1) @ map (\<lambda>v. get_request v (Timeout config)) (us @ [u])"
    by blast
  from downloadInMemory_requests [of E ctx v "Timeout config" "tick w"] d
  have "requests_of (trace w1) = requests_of (trace w)
        \<or> requests_of (trace w1) = requests_of (trace w) @ [get_request v (Timeout config)]"
    by (simp add: tick_def)
  then show ?case
  proof
    assume "requests_of (trace w1) = requests_of (trace w)"
    then have "requests_of (trace (snd (DownloadFileInMemory_loop E ctx ((v # pre) @ u # post) config errs w)))
              = requests_of (trace w) @ map (\<lambda>v. get_request v (Timeout config)) (us @ [u])"
      unfolding st using b by simp
    moreover have "subseq us (v # pre)" using us by (rule list_emb_Cons)
    ultimately show ?thesis unfolding st using a by blast
  next
    assume "requests_of (trace w1) = requests_of (trace w) @ [get_request v (Timeout config)]"
    then have "requests_of (trace (snd (DownloadFileInMemory_loop E ctx ((v # pre) @ u # post) config errs w)))
              = requests_of (trace w) @ map (\<lambda>v. get_request v (Timeout config)) ((v # us) @ [u])"
      unfolding st using b by simp
    moreover have "subseq (v # us) (v # pre)" using us by simp
    ultimately show ?thesis unfolding st using a by blast
  qed
qed

text \<open>
  Claim C8, as amended. Write \<open>R\<close> for what \<^verbatim>\<open>DownloadFileInMemory\<close> returns on
  \<^verbatim>\<open>URLList\<close>, with a context that is never cancelled.
  \<^item> Forwards, a success: when the downloads of the URLs before \<open>u\<close> fail whenever they
    are tried and the session answers the \<^verbatim>\<open>GET\<close> of \<open>u\<close> with status 200 and a body
    that reads to its end, \<open>R\<close> is a reader over the bytes of that body; the requests made
    are one \<^verbatim>\<open>GET\<close> for some of the URLs before \<open>u\<close>, in order, and then the \<^verbatim>\<open>GET\<close> of
    \<open>u\<close>: the loop goes on after a failure and asks no URL after \<open>u\<close>.
  \<^item> Forwards, a failure: when the download of every URL of the list fails whenever it
    is tried, \<open>R\<close> is \<^verbatim>\<open>ErrDownloadFailed\<close>.
  \<^item> Backwards: when \<open>R\<close> is \<^verbatim>\<open>ErrDownloadFailed\<close>, its causes are, index by index, the
    errors of the downloads of all the URLs of the list; when \<open>R\<close> is a reader, the list
    splits into URLs whose download failed and a URL answered with status 200 whose body
    is what the reader reads, and the URLs after it do not matter.
  \<^item> Every request is a \<^verbatim>\<open>GET\<close> without headers under the configured \<^verbatim>\<open>Timeout\<close>, at most
    one for each URL, in the order of the list.
\<close>

theorem in_memory_download:
  fixes E ctx URLList config w
  defines "cfg \<equiv> (case config of None \<Rightarrow> DefaultConfig | Some c \<Rightarrow> c)"
  defines "R \<equiv> DownloadFileInMemory E ctx URLList config w"
  shows
  "(\<forall>pre u post data.
       URLList = pre @ u # post \<and> (\<forall>t. \<not> ctx t)
       \<and> (\<forall>v \<in> set pre. \<forall>w'. isl (fst (downloadInMemory E ctx v (Timeout cfg) w')))
       \<and> new_request_err E u = None
       \<and> (\<forall>t. \<exists>resp. session_Do E t (get_request u (Timeout cfg)) = Inr resp
                  \<and> StatusCode resp = 200 \<and> Body resp = Inr data)
     \<longrightarrow> fst R = Inr data
        \<and> (\<exists>us. subseq us pre
              \<and> requests_of (trace (snd R))
                  = requests_of (trace w) @ map (\<lambda>v. get_request v (Timeout cfg)) (us @ [u])))
   \<and> ((\<forall>t. \<not> ctx t)
       \<and> (\<forall>u \<in> set URLList. \<forall>w'. isl (fst (downloadInMemory E ctx u (Timeout cfg) w')))
     \<longrightarrow> (\<exists>es. fst R = Inl (ErrDownloadFailed es)))
   \<and> (\<forall>es. fst R = Inl (ErrDownloadFailed es)
          \<longrightarrow> length es = length URLList \<and> list_all2 (\<lambda>u e. \<exists>wa wb. downloadInMemory E ctx u (Timeout cfg) wa = (Inl e, wb)) URLList es)
   \<and> (\<forall>data. fst R = Inr data
          \<longrightarrow> (\<exists>pre u post es. URLList = pre @ u # post \<and> list_all2 (\<lambda>u e. \<exists>wa wb. downloadInMemory E ctx u (Timeout cfg) wa = (Inl e, wb)) pre es
                 \<and> (\<exists>wa wb resp. downloadInMemory E ctx u (Timeout cfg) wa = (Inr data, wb)
                       \<and> session_Do E (clock wa) (get_request u (Timeout cfg)) = Inr resp
                       \<and> StatusCode resp = 200 \<and> Body resp = Inr data)
                 \<and> (\<forall>post'. DownloadFileInMemory E ctx (pre @ u # post') config w = R)))
   \<and> (\<exists>us. subseq us URLList
          \<and> requests_of (trace (snd R))
              = requests_of (trace w) @ map (\<lambda>u. get_request u (Timeout cfg)) us)
   \<and> (\<forall>u t. req_method (get_request u t) = GET \<and> req_timeout (get_request u t) = Some t
          \<and> req_headers (get_request u t) = [])"
proof (intro conjI allI impI)
  fix pre u post data
  assume h: "URLList = pre @ u # post \<and> (\<forall>t. \<not> ctx t)
       \<and> (\<forall>v \<in> set pre. \<forall>w'. isl (fst (downloadInMemory E ctx v (Timeout cfg) w')))
       \<and> new_request_err E u = None
       \<and> (\<forall>t. \<exists>resp. session_Do E t (get_request u (Timeout cfg)) = Inr resp
                  \<and> StatusCode resp = 200 \<and> Body resp = Inr data)"
  then have U: "URLList = pre @ u # post" and nc: "\<forall>t. \<not> ctx t"
    and fl: "\<forall>v \<in> set pre. \<forall>w'. isl (fst (downloadInMemory E ctx v (Timeout cfg) w'))"
    and url: "new_request_err E u = None"
    and good: "\<forall>t. \<exists>resp. session_Do E t (get_request u (Timeout cfg)) = Inr resp
                  \<and> StatusCode resp = 200 \<and> Body resp = Inr data"
    by simp_all
  from inmem_loop_first_good [OF nc fl url good, of post "[]" w]
  show "fst R = Inr data"
    and "\<exists>us. subseq us pre
              \<and> requests_of (trace (snd R))
                  = requests_of (trace w) @ map (\<lambda>v. get_request v (Timeout cfg)) (us @ [u])"
    unfolding R_def DownloadFileInMemory_def cfg_def [symmetric] U by simp_all
next
  assume h: "(\<forall>t. \<not> ctx t)
       \<and> (\<forall>u \<in> set URLList. \<forall>w'. isl (fst (downloadInMemory E ctx u (Timeout cfg) w')))"
  then have nc: "\<forall>t. \<not> ctx t"
    and fl: "\<forall>u \<in> set URLList. \<forall>w'. isl (fst (downloadInMemory E ctx u (Timeout cfg) w'))"
    by simp_all
  from inmem_loop_all_fail [OF nc fl, of "[]" w]
  show "\<exists>es. fst R = Inl (ErrDownloadFailed es)"
    unfolding R_def DownloadFileInMemory_def cfg_def [symmetric] .
next
  fix es assume "fst R = Inl (ErrDownloadFailed es)"
  then have f: "fst (DownloadFileInMemory_loop E ctx URLList cfg [] w) = Inl (ErrDownloadFailed es)"
    by (simp add: R_def DownloadFileInMemory_def cfg_def)
  from inmem_loop_failed_causes [OF f] show "list_all2 (\<lambda>u e. \<exists>wa wb. downloadInMemory E ctx u (Timeout cfg) wa = (Inl e, wb)) URLList es" by simp
  then show "length es = length URLList" by (simp add: list_all2_lengthD)
next
  fix data assume "fst R = Inr data"
  then have f: "fst (DownloadFileInMemory_loop E ctx URLList cfg [] w) = Inr data"
    by (simp add: R_def DownloadFileInMemory_def cfg_def)
  from inmem_loop_ok [OF f]
  show "\<exists>pre u post es. URLList = pre @ u # post \<and> list_all2 (\<lambda>u e. \<exists>wa wb. downloadInMemory E ctx u (Timeout cfg) wa = (Inl e, wb)) pre es
                 \<and> (\<exists>wa wb resp. downloadInMemory E ctx u (Timeout cfg) wa = (Inr data, wb)
                       \<and> session_Do E (clock wa) (get_request u (Timeout cfg)) = Inr resp
                       \<and> StatusCode resp = 200 \<and> Body resp = Inr data)
                 \<and> (\<forall>post'. DownloadFileInMemory E ctx (pre @ u # post') config w = R)"
    unfolding R_def DownloadFileInMemory_def cfg_def [symmetric] .
next
  show "\<exists>us. subseq us URLList
          \<and> requests_of (trace (snd R))
              = requests_of (trace w) @ map (\<lambda>u. get_request u (Timeout cfg)) us"
    unfolding R_def DownloadFileInMemory_def cfg_def [symmetric] by (rule inmem_loop_requests)
qed (simp_all add: get_request_def)

theorem in_memory_download_witness:
  "fst (DownloadFileInMemory (env0 (server 200 1 200 [1])\<lparr>new_request_err :=
            (\<lambda>url. if url = ''bad'' then Some (External ''invalid URL'') else None)\<rparr>)
          background [''bad'', ''good'', ''other''] None world0) = Inr [1]
   \<and> requests_of (trace (snd (DownloadFileInMemory (env0 (server 200 1 200 [1])\<lparr>new_request_err :=
            (\<lambda>url. if url = ''bad'' then Some (External ''invalid URL'') else None)\<rparr>)
          background [''bad'', ''good'', ''other''] None world0)))
       = [get_request ''good'' 30000000000]
   \<and> fst (DownloadFileInMemory (env0 (server 200 3 500 [])) background [''u'', ''v''] None world0)
       = Inl (ErrDownloadFailed [UnexpectedStatusCode 500, UnexpectedStatusCode 500])"
proof -
  define E where "E = env0 (server 200 1 200 [1])\<lparr>new_request_err :=
            (\<lambda>url. if url = ''bad'' then Some (External ''invalid URL'') else None)\<rparr>"
  have h: "[''bad'', ''good'', ''other''] = [''bad''] @ ''good'' # [''other'']
       \<and> (\<forall>t. \<not> background t)
       \<and> (\<forall>v \<in> set [''bad'']. \<forall>w'. isl (fst (downloadInMemory E background v
              (Timeout (case None of None \<Rightarrow> DefaultConfig | Some c \<Rightarrow> c)) w')))
       \<and> new_request_err E ''good'' = None
       \<and> (\<forall>t. \<exists>resp. session_Do E t (get_request ''good''
              (Timeout (case None of None \<Rightarrow> DefaultConfig | Some c \<Rightarrow> c))) = Inr resp
                  \<and> StatusCode resp = 200 \<and> Body resp = Inr [1])"
    by (simp add: background_def E_def env0_def server_def downloadInMemory_def get_request_def)
  note T = in_memory_download [where E = E and ctx = background and config = None and w = world0]
  from T [where URLList = "[''bad'', ''good'', ''other'']", THEN conjunct1, rule_format, OF h]
  obtain us where a: "fst (DownloadFileInMemory E background [''bad'', ''good'', ''other''] None world0) = Inr [1]"
    and us: "subseq us [''bad'']"
    and b: "requests_of (trace (snd (DownloadFileInMemory E background [''bad'', ''good'', ''other''] None world0)))
              = requests_of (trace world0) @ map (\<lambda>v. get_request v
                  (Timeout (case None of None \<Rightarrow> DefaultConfig | Some c \<Rightarrow> c))) (us @ [''good''])"
    by blast
  have b': "requests_of (trace (snd (DownloadFileInMemory E background [''bad'', ''good'', ''other''] None world0)))
              = [get_request ''good'' 30000000000]"
    unfolding E_def by (simp add: world_defs)
  have h2: "(\<forall>t. \<not> background t)
       \<and> (\<forall>u \<in> set [''u'', ''v'']. \<forall>w'. isl (fst (downloadInMemory (env0 (server 200 3 500 []))
              background u (Timeout (case None of None \<Rightarrow> DefaultConfig | Some c \<Rightarrow> c)) w')))"
    by (simp add: background_def env0_def server_def downloadInMemory_def http_Do_def get_request_def)
  from in_memory_download [where E = "env0 (server 200 3 500 [])" and ctx = background
      and config = None and w = world0 and URLList = "[''u'', ''v'']",
      THEN conjunct2, THEN conjunct1, rule_format, OF h2]
  obtain es where c: "fst (DownloadFileInMemory (env0 (server 200 3 500 [])) background
      [''u'', ''v''] None world0) = Inl (ErrDownloadFailed es)" by blast
  have c': "fst (DownloadFileInMemory (env0 (server 200 3 500 [])) background [''u'', ''v''] None world0)
       = Inl (ErrDownloadFailed [UnexpectedStatusCode 500, UnexpectedStatusCode 500])"
    by (simp add: world_defs)
  show ?thesis using a b' c' unfolding E_def by blast
qed

text \<open>
  The claim as it was stated says 2xx. The source tests \<^verbatim>\<open>resp.StatusCode != http.StatusOK\<close>:
  a response 203 with a body is an error.
\<close>

theorem in_memory_2xx_counterexample:
  "fst (DownloadFileInMemory (env0 (server 200 3 203 [1, 2, 3])) background [''u''] None world0)
     = Inl (ErrDownloadFailed [UnexpectedStatusCode 203])"
  by (simp add: world_defs)

subsection \<open>\<^verbatim>\<open>DownloadFile\<close>: the candidates in order\<close>

lemma ensureDownloadDir_error:
  "ensureDownloadDir E dir w = (Some err, w1) \<Longrightarrow> \<exists>e. err = FailedToCreateDownloadsDirectory e"
  by (auto simp: ensureDownloadDir_def split: if_splits prod.splits option.splits)

lemma DownloadFile_loop_step:
  fixes E ctx u fileName config errs w
  defines "path \<equiv> filepath_Join (DownloadDir config) fileName"
  shows
  "(\<exists>err w1 w2. runChunkedDownload E ctx u path config w1 = (Err err, w2)
       \<and> (\<forall>rest. DownloadFile_loop E ctx (u # rest) fileName config errs w
                   = DownloadFile_loop E ctx rest fileName config (errs @ [err]) w2))
   \<or> (\<exists>R. (\<forall>rest. DownloadFile_loop E ctx (u # rest) fileName config errs w = R)
         \<and> (\<forall>es. fst R \<noteq> Err (ErrDownloadFailed es))
         \<and> (\<forall>p. fst R = Ok p \<longrightarrow> p = path
               \<and> (\<exists>w1 w2. runChunkedDownload E ctx u path config w1 = (Ok (), w2)))
         \<and> (\<forall>x. fst R = Err (RemuxingFailed x) \<longrightarrow> Remux config
               \<and> (\<exists>w1 w2. runChunkedDownload E ctx u path config w1 = (Ok (), w2)
                     \<and> av_RemuxFile E path w2 = (Some x, snd R))))"
proof (cases "ctx (clock w)")
  case True
  then show ?thesis by (intro disjI2 exI [of _ "(Err CtxErr, tick w)"]) simp
next
  case nctx: False
  obtain d w1 where d: "ensureDownloadDir E (DownloadDir config) (tick w) = (d, w1)"
    by (cases "ensureDownloadDir E (DownloadDir config) (tick w)")
  show ?thesis
  proof (cases d)
    case (Some err)
    then obtain e where "err = FailedToCreateDownloadsDirectory e"
      using d ensureDownloadDir_error by blast
    then show ?thesis using nctx d Some
      by (intro disjI2 exI [of _ "(Err err, w1)"]) simp
  next
    case None
    obtain r w2 where r: "runChunkedDownload E ctx u path config w1 = (r, w2)"
      by (cases "runChunkedDownload E ctx u path config w1")
    show ?thesis
    proof (cases r)
      case (Err err)
      then show ?thesis using nctx d None r
        by (intro disjI1 exI [of _ err] exI [of _ w1] exI [of _ w2]) (simp add: path_def)
    next
      case (Panics msg)
      then show ?thesis using nctx d None r
        by (intro disjI2 exI [of _ "(Panics msg, w2)"]) (simp add: path_def)
    next
      case Blocks
      then show ?thesis using nctx d None r
        by (intro disjI2 exI [of _ "(Blocks, w2)"]) (simp add: path_def)
    next
      case (Ok x)
      show ?thesis
      proof (cases "Remux config")
        case False
        then show ?thesis using nctx d None r Ok
          by (intro disjI2 exI [of _ "(Ok path, w2)"]) (auto simp: path_def)
      next
        case True
        obtain m w3 where m: "av_RemuxFile E path w2 = (m, w3)"
          by (cases "av_RemuxFile E path w2")
        show ?thesis
        proof (cases m)
          case None' : None
          then show ?thesis using nctx d None r Ok True m
            by (intro disjI2 exI [of _ "(Ok path, w3)"]) (auto simp: path_def)
        next
          case (Some x)
          then show ?thesis using nctx d None r Ok True m
            by (intro disjI2 exI [of _ "(Err (RemuxingFailed x), w3)"]) (auto simp: path_def)
        qed
      qed
    qed
  qed
qed


lemma DownloadFile_loop_failed:
  "fst (DownloadFile_loop E ctx URLList fileName config errs w) = Err (ErrDownloadFailed es)
     \<Longrightarrow> \<exists>es'. es = errs @ es' \<and> list_all2 (\<lambda>u e. \<exists>wa wb. runChunkedDownload E ctx u (filepath_Join (DownloadDir config) fileName) config wa = (Err e, wb)) URLList es'"
proof (induction URLList arbitrary: errs w)
  case Nil
  then show ?case by simp
next
  case (Cons u rest)
  from DownloadFile_loop_step [of E ctx u config fileName errs w]
  show ?case
  proof (elim disjE exE conjE)
    fix err w1 w2
    assume f: "runChunkedDownload E ctx u (filepath_Join (DownloadDir config) fileName) config w1 = (Err err, w2)"
      and st: "\<forall>rest. DownloadFile_loop E ctx (u # rest) fileName config errs w
                 = DownloadFile_loop E ctx rest fileName config (errs @ [err]) w2"
    from Cons.prems st
    have "fst (DownloadFile_loop E ctx rest fileName config (errs @ [err]) w2) = Err (ErrDownloadFailed es)"
      by simp
    from Cons.IH [OF this] obtain es' where es': "es = (errs @ [err]) @ es'" "list_all2 (\<lambda>u e. \<exists>wa wb. runChunkedDownload E ctx u (filepath_Join (DownloadDir config) fileName) config wa = (Err e, wb)) rest es'"
      by (elim exE conjE)
    have "(\<lambda>u e. \<exists>wa wb. runChunkedDownload E ctx u (filepath_Join (DownloadDir config) fileName) config wa = (Err e, wb)) u err" using f by (intro exI)
    then have "list_all2 (\<lambda>u e. \<exists>wa wb. runChunkedDownload E ctx u (filepath_Join (DownloadDir config) fileName) config wa = (Err e, wb)) (u # rest) (err # es')" using es'(2) by (rule list_all2_Cons [THEN iffD2, OF conjI])
    then show ?thesis using es'(1) by (intro exI [of _ "err # es'"]) simp
  next
    fix R
    assume "\<forall>rest. DownloadFile_loop E ctx (u # rest) fileName config errs w = R"
      and "\<forall>es. fst R \<noteq> Err (ErrDownloadFailed es)"
    with Cons.prems show ?thesis by simp
  qed
qed

lemma DownloadFile_loop_ok:
  "fst (DownloadFile_loop E ctx URLList fileName config errs w) = Ok p
     \<Longrightarrow> p = (filepath_Join (DownloadDir config) fileName)
       \<and> (\<exists>pre u post es'. URLList = pre @ u # post \<and> list_all2 (\<lambda>u e. \<exists>wa wb. runChunkedDownload E ctx u (filepath_Join (DownloadDir config) fileName) config wa = (Err e, wb)) pre es'
             \<and> (\<exists>wa wb. runChunkedDownload E ctx u (filepath_Join (DownloadDir config) fileName) config wa = (Ok (), wb))
             \<and> (\<forall>post'. DownloadFile_loop E ctx (pre @ u # post') fileName config errs w
                          = DownloadFile_loop E ctx URLList fileName config errs w))"
proof (induction URLList arbitrary: errs w)
  case Nil
  then show ?case by simp
next
  case (Cons u rest)
  from DownloadFile_loop_step [of E ctx u config fileName errs w]
  show ?case
  proof (elim disjE exE conjE)
    fix err w1 w2
    assume f: "runChunkedDownload E ctx u (filepath_Join (DownloadDir config) fileName) config w1 = (Err err, w2)"
      and st: "\<forall>rest. DownloadFile_loop E ctx (u # rest) fileName config errs w
                 = DownloadFile_loop E ctx rest fileName config (errs @ [err]) w2"
    from Cons.prems st
    have "fst (DownloadFile_loop E ctx rest fileName config (errs @ [err]) w2) = Ok p"
      by simp
    from Cons.IH [OF this] obtain pre u' post es' wa wb where
      p: "p = (filepath_Join (DownloadDir config) fileName)" and split: "rest = pre @ u' # post" and fl: "list_all2 (\<lambda>u e. \<exists>wa wb. runChunkedDownload E ctx u (filepath_Join (DownloadDir config) fileName) config wa = (Err e, wb)) pre es'"
      and ok: "runChunkedDownload E ctx u' (filepath_Join (DownloadDir config) fileName) config wa = (Ok (), wb)"
      and ind: "\<forall>post'. DownloadFile_loop E ctx (pre @ u' # post') fileName config (errs @ [err]) w2
                          = DownloadFile_loop E ctx rest fileName config (errs @ [err]) w2"
      by (elim exE conjE)
    have "(\<lambda>u e. \<exists>wa wb. runChunkedDownload E ctx u (filepath_Join (DownloadDir config) fileName) config wa = (Err e, wb)) u err" using f by (intro exI)
    then have fl': "list_all2 (\<lambda>u e. \<exists>wa wb. runChunkedDownload E ctx u (filepath_Join (DownloadDir config) fileName) config wa = (Err e, wb)) (u # pre) (err # es')"
      using fl by (rule list_all2_Cons [THEN iffD2, OF conjI])
    have sp: "u # rest = (u # pre) @ u' # post" using split by simp
    have ind': "\<forall>post'. DownloadFile_loop E ctx ((u # pre) @ u' # post') fileName config errs w
                          = DownloadFile_loop E ctx (u # rest) fileName config errs w"
      using st ind by simp
    show ?thesis
      by (rule conjI [OF p], intro exI conjI, rule sp, rule fl', rule ok, rule ind')
  next
    fix R
    assume all: "\<forall>rest. DownloadFile_loop E ctx (u # rest) fileName config errs w = R"
      and okR: "\<forall>p. fst R = Ok p \<longrightarrow> p = (filepath_Join (DownloadDir config) fileName)
               \<and> (\<exists>w1 w2. runChunkedDownload E ctx u (filepath_Join (DownloadDir config) fileName) config w1 = (Ok (), w2))"
    have R: "fst R = Ok p" using Cons.prems all by simp
    from okR [rule_format, OF R] obtain w1 w2 where
      p: "p = (filepath_Join (DownloadDir config) fileName)" and ok: "runChunkedDownload E ctx u (filepath_Join (DownloadDir config) fileName) config w1 = (Ok (), w2)"
      by (elim exE conjE)
    have fl': "list_all2 (\<lambda>u e. \<exists>wa wb. runChunkedDownload E ctx u (filepath_Join (DownloadDir config) fileName) config wa = (Err e, wb)) [] []" by simp
    have sp: "u # rest = [] @ u # rest" by simp
    have ind': "\<forall>post'. DownloadFile_loop E ctx ([] @ u # post') fileName config errs w
                          = DownloadFile_loop E ctx (u # rest) fileName config errs w"
      using all by simp
    show ?thesis
      by (rule conjI [OF p], intro exI conjI, rule sp, rule fl', rule ok, rule ind')
  qed
qed

lemma DownloadFile_loop_remux:
  "fst (DownloadFile_loop E ctx URLList fileName config errs w) = Err (RemuxingFailed x)
     \<Longrightarrow> Remux config
       \<and> (\<exists>pre u post es'. URLList = pre @ u # post \<and> list_all2 (\<lambda>u e. \<exists>wa wb. runChunkedDownload E ctx u (filepath_Join (DownloadDir config) fileName) config wa = (Err e, wb)) pre es'
             \<and> (\<exists>wa wb. runChunkedDownload E ctx u (filepath_Join (DownloadDir config) fileName) config wa = (Ok (), wb)
                   \<and> av_RemuxFile E (filepath_Join (DownloadDir config) fileName) wb
                       = (Some x, snd (DownloadFile_loop E ctx URLList fileName config errs w)))
             \<and> (\<forall>post'. DownloadFile_loop E ctx (pre @ u # post') fileName config errs w
                          = DownloadFile_loop E ctx URLList fileName config errs w))"
proof (induction URLList arbitrary: errs w)
  case Nil
  then show ?case by simp
next
  case (Cons u rest)
  from DownloadFile_loop_step [of E ctx u config fileName errs w]
  show ?case
  proof (elim disjE exE conjE)
    fix err w1 w2
    assume f: "runChunkedDownload E ctx u (filepath_Join (DownloadDir config) fileName) config w1 = (Err err, w2)"
      and st: "\<forall>rest. DownloadFile_loop E ctx (u # rest) fileName config errs w
                 = DownloadFile_loop E ctx rest fileName config (errs @ [err]) w2"
    have st': "DownloadFile_loop E ctx (u # rest) fileName config errs w
                 = DownloadFile_loop E ctx rest fileName config (errs @ [err]) w2"
      using st by simp
    from Cons.prems st
    have "fst (DownloadFile_loop E ctx rest fileName config (errs @ [err]) w2) = Err (RemuxingFailed x)"
      by simp
    from Cons.IH [OF this] obtain pre u' post es' wa wb where
      p: "Remux config" and split: "rest = pre @ u' # post" and fl: "list_all2 (\<lambda>u e. \<exists>wa wb. runChunkedDownload E ctx u (filepath_Join (DownloadDir config) fileName) config wa = (Err e, wb)) pre es'"
      and ok: "runChunkedDownload E ctx u' (filepath_Join (DownloadDir config) fileName) config wa = (Ok (), wb)"
      and rm: "av_RemuxFile E (filepath_Join (DownloadDir config) fileName) wb
                  = (Some x, snd (DownloadFile_loop E ctx rest fileName config (errs @ [err]) w2))"
      and ind: "\<forall>post'. DownloadFile_loop E ctx (pre @ u' # post') fileName config (errs @ [err]) w2
                          = DownloadFile_loop E ctx rest fileName config (errs @ [err]) w2"
      by (elim exE conjE)
    have "(\<lambda>u e. \<exists>wa wb. runChunkedDownload E ctx u (filepath_Join (DownloadDir config) fileName) config wa = (Err e, wb)) u err" using f by (intro exI)
    then have fl': "list_all2 (\<lambda>u e. \<exists>wa wb. runChunkedDownload E ctx u (filepath_Join (DownloadDir config) fileName) config wa = (Err e, wb)) (u # pre) (err # es')"
      using fl by (rule list_all2_Cons [THEN iffD2, OF conjI])
    have sp: "u # rest = (u # pre) @ u' # post" using split by simp
    have ind': "\<forall>post'. DownloadFile_loop E ctx ((u # pre) @ u' # post') fileName config errs w
                          = DownloadFile_loop E ctx (u # rest) fileName config errs w"
      using st ind by simp
    have rm': "av_RemuxFile E (filepath_Join (DownloadDir config) fileName) wb
                  = (Some x, snd (DownloadFile_loop E ctx (u # rest) fileName config errs w))"
      using rm unfolding st' .
    show ?thesis
      by (rule conjI [OF p], intro exI conjI, rule sp, rule fl', rule ok, rule rm', rule ind')
  next
    fix R
    assume all: "\<forall>rest. DownloadFile_loop E ctx (u # rest) fileName config errs w = R"
      and rmR: "\<forall>x. fst R = Err (RemuxingFailed x) \<longrightarrow> Remux config
               \<and> (\<exists>w1 w2. runChunkedDownload E ctx u (filepath_Join (DownloadDir config) fileName) config w1 = (Ok (), w2)
                     \<and> av_RemuxFile E (filepath_Join (DownloadDir config) fileName) w2 = (Some x, snd R))"
    have Req: "DownloadFile_loop E ctx (u # rest) fileName config errs w = R" using all by simp
    have R: "fst R = Err (RemuxingFailed x)" using Cons.prems all by simp
    from rmR [rule_format, OF R] obtain w1 w2 where
      p: "Remux config" and ok: "runChunkedDownload E ctx u (filepath_Join (DownloadDir config) fileName) config w1 = (Ok (), w2)"
      and rm: "av_RemuxFile E (filepath_Join (DownloadDir config) fileName) w2 = (Some x, snd R)"
      by (elim exE conjE)
    have fl': "list_all2 (\<lambda>u e. \<exists>wa wb. runChunkedDownload E ctx u (filepath_Join (DownloadDir config) fileName) config wa = (Err e, wb)) [] []" by simp
    have sp: "u # rest = [] @ u # rest" by simp
    have ind': "\<forall>post'. DownloadFile_loop E ctx ([] @ u # post') fileName config errs w
                          = DownloadFile_loop E ctx (u # rest) fileName config errs w"
      using all by simp
    have rm': "av_RemuxFile E (filepath_Join (DownloadDir config) fileName) w2
                  = (Some x, snd (DownloadFile_loop E ctx (u # rest) fileName config errs w))"
      using rm unfolding Req .
    show ?thesis
      by (rule conjI [OF p], intro exI conjI, rule sp, rule fl', rule ok, rule rm', rule ind')
  qed
qed


lemma DownloadFile_loop_all_fail:
  assumes nc: "\<forall>t. \<not> ctx t"
      and dir: "\<forall>w'. fst (ensureDownloadDir E (DownloadDir config) w') = None"
      and fails: "\<forall>u \<in> set URLList. \<forall>w'. \<exists>e w''.
                    runChunkedDownload E ctx u (filepath_Join (DownloadDir config) fileName) config w' = (Err e, w'')"
  shows "\<exists>es. fst (DownloadFile_loop E ctx URLList fileName config errs w)
                 = Err (ErrDownloadFailed es)"
  using fails
proof (induction URLList arbitrary: errs w)
  case Nil
  show ?case by simp
next
  case (Cons u rest)
  have c: "\<not> ctx (clock w)" using nc by simp
  obtain w1 where e: "ensureDownloadDir E (DownloadDir config) (tick w) = (None, w1)"
    using dir [rule_format, of "tick w"]
    by (cases "ensureDownloadDir E (DownloadDir config) (tick w)") simp
  obtain err w2 where d: "runChunkedDownload E ctx u (filepath_Join (DownloadDir config) fileName) config w1 = (Err err, w2)"
    using Cons.prems by (meson list.set_intros(1))
  have "\<forall>u \<in> set rest. \<forall>w'. \<exists>e w''. runChunkedDownload E ctx u (filepath_Join (DownloadDir config) fileName) config w' = (Err e, w'')"
    using Cons.prems by simp
  from Cons.IH [OF this, of "errs @ [err]" w2] show ?case using c e d by simp
qed

lemma DownloadFile_loop_first_good:
  assumes nc: "\<forall>t. \<not> ctx t"
      and dir: "\<forall>w'. fst (ensureDownloadDir E (DownloadDir config) w') = None"
      and fails: "\<forall>v \<in> set pre. \<forall>w'. \<exists>e w''.
                    runChunkedDownload E ctx v (filepath_Join (DownloadDir config) fileName) config w' = (Err e, w'')"
      and good: "\<forall>w'. \<exists>w''. runChunkedDownload E ctx u (filepath_Join (DownloadDir config) fileName) config w' = (Ok (), w'')"
  shows "\<exists>w1 w2. runChunkedDownload E ctx u (filepath_Join (DownloadDir config) fileName) config w1 = (Ok (), w2)
           \<and> (\<forall>post. DownloadFile_loop E ctx (pre @ u # post) fileName config errs w
                 = (if Remux config
                    then (case av_RemuxFile E (filepath_Join (DownloadDir config) fileName) w2 of
                            (Some x, w3) \<Rightarrow> (Err (RemuxingFailed x), w3)
                          | (None, w3) \<Rightarrow> (Ok (filepath_Join (DownloadDir config) fileName), w3))
                    else (Ok (filepath_Join (DownloadDir config) fileName), w2)))"
  using fails
proof (induction pre arbitrary: errs w)
  case Nil
  have c: "\<not> ctx (clock w)" using nc by simp
  obtain w1 where e: "ensureDownloadDir E (DownloadDir config) (tick w) = (None, w1)"
    using dir [rule_format, of "tick w"]
    by (cases "ensureDownloadDir E (DownloadDir config) (tick w)") simp
  obtain w2 where d: "runChunkedDownload E ctx u (filepath_Join (DownloadDir config) fileName) config w1 = (Ok (), w2)"
    using good by blast
  have "\<forall>post. DownloadFile_loop E ctx ([] @ u # post) fileName config errs w
                 = (if Remux config
                    then (case av_RemuxFile E (filepath_Join (DownloadDir config) fileName) w2 of
                            (Some x, w3) \<Rightarrow> (Err (RemuxingFailed x), w3)
                          | (None, w3) \<Rightarrow> (Ok (filepath_Join (DownloadDir config) fileName), w3))
                    else (Ok (filepath_Join (DownloadDir config) fileName), w2))"
    using c e d by (simp split: prod.splits option.splits)
  with d show ?case by blast
next
  case (Cons v pre)
  have c: "\<not> ctx (clock w)" using nc by simp
  obtain w1 where e: "ensureDownloadDir E (DownloadDir config) (tick w) = (None, w1)"
    using dir [rule_format, of "tick w"]
    by (cases "ensureDownloadDir E (DownloadDir config) (tick w)") simp
  obtain err w2 where d: "runChunkedDownload E ctx v (filepath_Join (DownloadDir config) fileName) config w1 = (Err err, w2)"
    using Cons.prems by (meson list.set_intros(1))
  have st: "DownloadFile_loop E ctx ((v # pre) @ u # post) fileName config errs w
              = DownloadFile_loop E ctx (pre @ u # post) fileName config (errs @ [err]) w2" for post
    using c e d by simp
  have "\<forall>v \<in> set pre. \<forall>w'. \<exists>e w''. runChunkedDownload E ctx v (filepath_Join (DownloadDir config) fileName) config w' = (Err e, w'')"
    using Cons.prems by simp
  from Cons.IH [OF this, of "errs @ [err]" w2] show ?case unfolding st .
qed

text \<open>
  Claim C5, as amended. \<^verbatim>\<open>DownloadFile\<close> tries the candidate URLs in the order of the
  list, and the first URL whose chunked download succeeds ends the loop. Write \<open>R\<close> for
  what the call returns, with a context that is never cancelled and a download directory
  that exists or can be made.
  \<^item> Forwards, a success: when the chunked downloads of the URLs before \<open>u\<close> fail whenever
    they are tried and that of \<open>u\<close> succeeds whenever it is tried, the call returns what
    follows the download of \<open>u\<close>: the path \<^verbatim>\<open>DownloadDir/fileName\<close> when remuxing is off
    or the remuxer succeeds, the error \<^verbatim>\<open>remuxing failed\<close> when the remuxer fails. The
    URLs after \<open>u\<close> are not attempted: the result and the world are the same whatever
    stands in their place.
  \<^item> Forwards, a failure: when the chunked download of every URL of the list fails
    whenever it is tried, \<open>R\<close> is \<^verbatim>\<open>ErrDownloadFailed\<close>.
  \<^item> Backwards: when \<open>R\<close> is \<^verbatim>\<open>ErrDownloadFailed\<close>, its causes are, index by index, the
    errors of the chunked downloads of all the URLs of the list. When \<open>R\<close> is a path, or
    the error \<^verbatim>\<open>remuxing failed\<close> (then remuxing is enabled), the list splits into URLs
    whose chunked download failed, a URL whose chunked download succeeded, and the URLs
    after it, which are not attempted.
\<close>

theorem DownloadFile_candidates_in_order:
  fixes E ctx URLList fileName config w
  defines "cfg \<equiv> (case config of None \<Rightarrow> DefaultConfig | Some c \<Rightarrow> c)"
  defines "path \<equiv> filepath_Join (DownloadDir cfg) fileName"
  defines "R \<equiv> DownloadFile E ctx URLList fileName config w"
  shows
    "(\<forall>pre u post.
        URLList = pre @ u # post \<and> (\<forall>t. \<not> ctx t)
        \<and> (\<forall>w'. fst (ensureDownloadDir E (DownloadDir cfg) w') = None)
        \<and> (\<forall>v \<in> set pre. \<forall>w'. \<exists>e w''. runChunkedDownload E ctx v path cfg w' = (Err e, w''))
        \<and> (\<forall>w'. \<exists>w''. runChunkedDownload E ctx u path cfg w' = (Ok (), w''))
      \<longrightarrow> (\<exists>w1 w2. runChunkedDownload E ctx u path cfg w1 = (Ok (), w2)
             \<and> (\<forall>post'. DownloadFile E ctx (pre @ u # post') fileName config w
                   = (if Remux cfg
                      then (case av_RemuxFile E path w2 of
                              (Some x, w3) \<Rightarrow> (Err (RemuxingFailed x), w3)
                            | (None, w3) \<Rightarrow> (Ok path, w3))
                      else (Ok path, w2)))))
     \<and> ((\<forall>t. \<not> ctx t)
        \<and> (\<forall>w'. fst (ensureDownloadDir E (DownloadDir cfg) w') = None)
        \<and> (\<forall>u \<in> set URLList. \<forall>w'. \<exists>e w''. runChunkedDownload E ctx u path cfg w' = (Err e, w''))
      \<longrightarrow> (\<exists>es. fst R = Err (ErrDownloadFailed es)))
     \<and> (\<forall>es. fst R = Err (ErrDownloadFailed es) \<longrightarrow> list_all2 (\<lambda>u e. \<exists>wa wb. runChunkedDownload E ctx u path cfg wa = (Err e, wb)) URLList es)
     \<and> (\<forall>p. fst R = Ok p \<longrightarrow> p = path
           \<and> (\<exists>pre u post es. URLList = pre @ u # post \<and> list_all2 (\<lambda>u e. \<exists>wa wb. runChunkedDownload E ctx u path cfg wa = (Err e, wb)) pre es
                 \<and> (\<exists>wa wb. runChunkedDownload E ctx u path cfg wa = (Ok (), wb))
                 \<and> (\<forall>post'. DownloadFile E ctx (pre @ u # post') fileName config w = R)))
     \<and> (\<forall>x. fst R = Err (RemuxingFailed x) \<longrightarrow> Remux cfg
           \<and> (\<exists>pre u post es. URLList = pre @ u # post \<and> list_all2 (\<lambda>u e. \<exists>wa wb. runChunkedDownload E ctx u path cfg wa = (Err e, wb)) pre es
                 \<and> (\<exists>wa wb. runChunkedDownload E ctx u path cfg wa = (Ok (), wb)
                       \<and> av_RemuxFile E path wb = (Some x, snd R))
                 \<and> (\<forall>post'. DownloadFile E ctx (pre @ u # post') fileName config w = R)))"
proof (intro conjI allI impI)
  fix pre u post
  assume h: "URLList = pre @ u # post \<and> (\<forall>t. \<not> ctx t)
        \<and> (\<forall>w'. fst (ensureDownloadDir E (DownloadDir cfg) w') = None)
        \<and> (\<forall>v \<in> set pre. \<forall>w'. \<exists>e w''. runChunkedDownload E ctx v path cfg w' = (Err e, w''))
        \<and> (\<forall>w'. \<exists>w''. runChunkedDownload E ctx u path cfg w' = (Ok (), w''))"
  then have nc: "\<forall>t. \<not> ctx t"
    and dir: "\<forall>w'. fst (ensureDownloadDir E (DownloadDir cfg) w') = None"
    and fl: "\<forall>v \<in> set pre. \<forall>w'. \<exists>e w''. runChunkedDownload E ctx v
                (filepath_Join (DownloadDir cfg) fileName) cfg w' = (Err e, w'')"
    and good: "\<forall>w'. \<exists>w''. runChunkedDownload E ctx u
                (filepath_Join (DownloadDir cfg) fileName) cfg w' = (Ok (), w'')"
    by (simp_all add: path_def)
  from DownloadFile_loop_first_good [OF nc dir fl good, of "[]" w]
  show "\<exists>w1 w2. runChunkedDownload E ctx u path cfg w1 = (Ok (), w2)
             \<and> (\<forall>post'. DownloadFile E ctx (pre @ u # post') fileName config w
                   = (if Remux cfg
                      then (case av_RemuxFile E path w2 of
                              (Some x, w3) \<Rightarrow> (Err (RemuxingFailed x), w3)
                            | (None, w3) \<Rightarrow> (Ok path, w3))
                      else (Ok path, w2)))"
    unfolding DownloadFile_def cfg_def [symmetric] path_def [symmetric] .
next
  assume h: "(\<forall>t. \<not> ctx t)
        \<and> (\<forall>w'. fst (ensureDownloadDir E (DownloadDir cfg) w') = None)
        \<and> (\<forall>u \<in> set URLList. \<forall>w'. \<exists>e w''. runChunkedDownload E ctx u path cfg w' = (Err e, w''))"
  then have nc: "\<forall>t. \<not> ctx t"
    and dir: "\<forall>w'. fst (ensureDownloadDir E (DownloadDir cfg) w') = None"
    and fl: "\<forall>u \<in> set URLList. \<forall>w'. \<exists>e w''. runChunkedDownload E ctx u
                (filepath_Join (DownloadDir cfg) fileName) cfg w' = (Err e, w'')"
    by (simp_all add: path_def)
  from DownloadFile_loop_all_fail [OF nc dir fl, of "[]" w]
  show "\<exists>es. fst R = Err (ErrDownloadFailed es)"
    unfolding R_def DownloadFile_def cfg_def [symmetric] .
next
  fix es assume "fst R = Err (ErrDownloadFailed es)"
  then have "fst (DownloadFile_loop E ctx URLList fileName cfg [] w) = Err (ErrDownloadFailed es)"
    by (simp add: R_def DownloadFile_def cfg_def)
  from DownloadFile_loop_failed [OF this]
  show "list_all2 (\<lambda>u e. \<exists>wa wb. runChunkedDownload E ctx u path cfg wa = (Err e, wb)) URLList es" unfolding path_def by simp
next
  fix p assume "fst R = Ok p"
  then have "fst (DownloadFile_loop E ctx URLList fileName cfg [] w) = Ok p"
    by (simp add: R_def DownloadFile_def cfg_def)
  from DownloadFile_loop_ok [OF this]
  show "p = path" 
    and "\<exists>pre u post es. URLList = pre @ u # post \<and> list_all2 (\<lambda>u e. \<exists>wa wb. runChunkedDownload E ctx u path cfg wa = (Err e, wb)) pre es
                 \<and> (\<exists>wa wb. runChunkedDownload E ctx u path cfg wa = (Ok (), wb))
                 \<and> (\<forall>post'. DownloadFile E ctx (pre @ u # post') fileName config w = R)"
    unfolding path_def R_def DownloadFile_def cfg_def [symmetric] by simp_all
next
  fix x assume "fst R = Err (RemuxingFailed x)"
  then have "fst (DownloadFile_loop E ctx URLList fileName cfg [] w) = Err (RemuxingFailed x)"
    by (simp add: R_def DownloadFile_def cfg_def)
  from DownloadFile_loop_remux [OF this]
  show "Remux cfg"
    and "\<exists>pre u post es. URLList = pre @ u # post \<and> list_all2 (\<lambda>u e. \<exists>wa wb. runChunkedDownload E ctx u path cfg wa = (Err e, wb)) pre es
                 \<and> (\<exists>wa wb. runChunkedDownload E ctx u path cfg wa = (Ok (), wb)
                       \<and> av_RemuxFile E path wb = (Some x, snd R))
                 \<and> (\<forall>post'. DownloadFile E ctx (pre @ u # post') fileName config w = R)"
    unfolding path_def R_def DownloadFile_def cfg_def [symmetric] by simp_all
qed

lemma createChunks_one: "createChunks 1 10485760 = Inr [(0, 0)]"
proof -
  have "createChunks 1 10485760
          = Inr (map (\<lambda>i. (i * 10485760, min (i * 10485760 + 10485760 - 1) (1 - 1)))
                  [0..(1 + 10485760 - 1) div 10485760 - 1])"
    by (rule createChunks_eq) simp_all
  then show ?thesis by (simp add: upto.simps)
qed

theorem DownloadFile_candidates_in_order_witness:
  "fst (DownloadFile (env0 (url_server ''b'')\<lparr>new_request_err :=
            (\<lambda>url. if url = ''a'' then Some (External ''invalid URL'') else None)\<rparr>)
          background [''a'', ''b'', ''c''] ''f'' None world0) = Ok ''downloads/f''
   \<and> map req_url (requests_of (trace (snd (DownloadFile (env0 (url_server ''b'')\<lparr>new_request_err :=
            (\<lambda>url. if url = ''a'' then Some (External ''invalid URL'') else None)\<rparr>)
          background [''a'', ''b'', ''c''] ''f'' None world0)))) = [''b'', ''b'']
   \<and> fst (DownloadFile (env0 (server 404 0 200 [])) background [''u'', ''v''] ''f'' None world0)
       = Err (ErrDownloadFailed [FailedToGetFileInfo 404, FailedToGetFileInfo 404])
   \<and> fst (DownloadFile ((env0 (url_server ''b''))\<lparr>RemuxFile := picky_remux\<rparr>) background
            [''a'', ''b''] ''f'' None world0)
       = Err (RemuxingFailed (External ''invalid data found''))
   \<and> Remux DefaultConfig"
proof -
  define E where "E = env0 (url_server ''b'')\<lparr>new_request_err :=
            (\<lambda>url. if url = ''a'' then Some (External ''invalid URL'') else None)\<rparr>"
  define cfg where "cfg = (case None of None \<Rightarrow> DefaultConfig | Some c \<Rightarrow> c)"
  have cfg: "cfg = DefaultConfig" by (simp add: cfg_def)
  have h: "[''a'', ''b'', ''c''] = [''a''] @ ''b'' # [''c''] \<and> (\<forall>t. \<not> background t)
        \<and> (\<forall>w'. fst (ensureDownloadDir E (DownloadDir cfg) w') = None)
        \<and> (\<forall>v \<in> set [''a'']. \<forall>w'. \<exists>e w''. runChunkedDownload E background v
               (filepath_Join (DownloadDir cfg) ''f'') cfg w' = (Err e, w''))
        \<and> (\<forall>w'. \<exists>w''. runChunkedDownload E background ''b''
               (filepath_Join (DownloadDir cfg) ''f'') cfg w' = (Ok (), w''))"
    unfolding cfg E_def by (simp add: world_defs createChunks_one)
  note T = DownloadFile_candidates_in_order [where config = None and ctx = background
      and fileName = "''f''" and w = world0]
  from T [where E = E and URLList = "[''a'', ''b'', ''c'']", THEN conjunct1, rule_format,
      OF h [unfolded cfg_def]]
  obtain w1 w2 where
    "DownloadFile E background ([''a''] @ ''b'' # [''c'']) ''f'' None world0
       = (if Remux cfg
          then (case av_RemuxFile E (filepath_Join (DownloadDir cfg) ''f'') w2 of
                  (Some x, w3) \<Rightarrow> (Err (RemuxingFailed x), w3)
                | (None, w3) \<Rightarrow> (Ok (filepath_Join (DownloadDir cfg) ''f''), w3))
          else (Ok (filepath_Join (DownloadDir cfg) ''f''), w2))"
    unfolding cfg_def by blast
  then have a: "fst (DownloadFile E background [''a'', ''b'', ''c''] ''f'' None world0) = Ok ''downloads/f''"
    unfolding cfg E_def by (simp add: world_defs split: prod.splits)
  have a2: "map req_url (requests_of (trace (snd (DownloadFile E background [''a'', ''b'', ''c'']
              ''f'' None world0)))) = [''b'', ''b'']"
    unfolding E_def by (simp add: world_defs createChunks_one)
  have h2: "(\<forall>t. \<not> background t)
        \<and> (\<forall>w'. fst (ensureDownloadDir (env0 (server 404 0 200 [])) (DownloadDir cfg) w') = None)
        \<and> (\<forall>u \<in> set [''u'', ''v'']. \<forall>w'. \<exists>e w''. runChunkedDownload (env0 (server 404 0 200 []))
               background u (filepath_Join (DownloadDir cfg) ''f'') cfg w' = (Err e, w''))"
    unfolding cfg by (simp add: world_defs)
  from T [where E = "env0 (server 404 0 200 [])" and URLList = "[''u'', ''v'']",
      THEN conjunct2, THEN conjunct1, rule_format, OF h2 [unfolded cfg_def]]
  obtain es where "fst (DownloadFile (env0 (server 404 0 200 [])) background [''u'', ''v''] ''f''
      None world0) = Err (ErrDownloadFailed es)" by blast
  have b: "fst (DownloadFile (env0 (server 404 0 200 [])) background [''u'', ''v''] ''f'' None world0)
       = Err (ErrDownloadFailed [FailedToGetFileInfo 404, FailedToGetFileInfo 404])"
    by (simp add: world_defs)
  have c: "fst (DownloadFile ((env0 (url_server ''b''))\<lparr>RemuxFile := picky_remux\<rparr>) background
            [''a'', ''b''] ''f'' None world0)
       = Err (RemuxingFailed (External ''invalid data found''))"
    by (simp add: world_defs createChunks_one)
  have c': "Remux DefaultConfig"
    using T [where E = "(env0 (url_server ''b''))\<lparr>RemuxFile := picky_remux\<rparr>"
        and URLList = "[''a'', ''b'']", THEN conjunct2, THEN conjunct2, THEN conjunct2,
        THEN conjunct2, rule_format, OF c] by simp
  show ?thesis using a a2 b c c' unfolding E_def by blast
qed

text \<open>
  The claim as it was stated counts the remuxing into the success of a URL. In the
  source a failure of the remuxer is returned at once. Here the file behind the first
  URL downloads and is refused by the remuxer, and the second URL alone would succeed:
  the call returns the error of the remuxer, and the only requests are the probe and the
  chunk of the first URL.
\<close>

theorem DownloadFile_remux_counterexample:
  "fst (DownloadFile ((env0 (url_server ''b''))\<lparr>RemuxFile := picky_remux\<rparr>) background
          [''a'', ''b''] ''f'' None world0)
     = Err (RemuxingFailed (External ''invalid data found''))
   \<and> map req_url (requests_of (trace (snd (DownloadFile
          ((env0 (url_server ''b''))\<lparr>RemuxFile := picky_remux\<rparr>) background
          [''a'', ''b''] ''f'' None world0))))
       = [''a'', ''a'']
   \<and> fst (DownloadFile ((env0 (url_server ''b''))\<lparr>RemuxFile := picky_remux\<rparr>) background
          [''b''] ''f'' None world0)
       = Ok ''downloads/f''"
  by (simp add: world_defs createChunks_one)

subsection \<open>\<^verbatim>\<open>GetRedditData\<close>: one retry against the other host\<close>

text \<open>
  Claim C9. Let the first request of \<^verbatim>\<open>GetRedditData(session, host, slug, false)\<close> get a
  response whose status is not 2xx (the URLs being ones that \<^verbatim>\<open>http.NewRequest\<close> accepts
  and the cookie file readable). Then the function hands exactly two requests to the
  session: the first to \<^verbatim>\<open>host\<close>, the second to the alternative host, which is
  \<^verbatim>\<open>old.reddit.com\<close>, or \<^verbatim>\<open>www.reddit.com\<close> when \<^verbatim>\<open>host\<close> is \<^verbatim>\<open>old.reddit.com\<close>. When the
  response to the second request is not 2xx either, the function returns the error
  \<^verbatim>\<open>failed to get reddit data\<close> with that status, and there is no third request.
\<close>

theorem GetRedditData_retries_once:
  fixes E host slug w cookies
  defines "altHost \<equiv> (if host = ''old.reddit.com'' then ''www.reddit.com'' else ''old.reddit.com'')"
  defines "r1 \<equiv> reddit_request E (reddit_url host slug) cookies"
  defines "r2 \<equiv> reddit_request E (reddit_url altHost slug) cookies"
  assumes url: "new_request_err E (reddit_url host slug) = None"
              "new_request_err E (reddit_url altHost slug) = None"
      and cookies: "\<forall>t. ParseCookieFile E t ''reddit.txt'' = Inr cookies"
      and first: "session_Do E (Suc (clock w)) r1 = Inr res"
                 "StatusCode res < 200 \<or> 299 < StatusCode res"
  shows "requests_of (trace (snd (GetRedditData E host slug False w)))
           = requests_of (trace w) @ [r1, r2]
         \<and> req_url r2 = ''https://'' @ altHost @ ''/'' @ slug @ ''/.json''
         \<and> (\<forall>res2. session_Do E (Suc (Suc (Suc (clock w)))) r2 = Inr res2
                \<and> (StatusCode res2 < 200 \<or> 299 < StatusCode res2)
              \<longrightarrow> fst (GetRedditData E host slug False w)
                    = Inl (FailedToGetRedditData (StatusCode res2)))"
proof -
  have ne: "StatusCode res \<noteq> 200" using first(2) by auto
  define w1 where "w1 = emit (Request r1) (tick (tick w))"
  have step: "GetRedditData E host slug False w = GetRedditData E altHost slug True w1"
    using url(1) cookies first(1) ne
    by (subst GetRedditData.simps)
       (simp add: Let_def http_Do_def tick_def emit_def r1_def w1_def altHost_def)
  have cl: "clock w1 = Suc (Suc (clock w))" "trace w1 = trace w @ [Request r1]"
    by (simp_all add: w1_def emit_def tick_def)
  have tr: "requests_of (trace (snd (GetRedditData E altHost slug True w1)))
              = requests_of (trace w) @ [r1, r2]"
    using url(2) cookies
    by (subst GetRedditData.simps)
       (simp add: Let_def http_Do_def tick_def emit_def r2_def cl
             split: sum.splits option.splits)
  have err: "fst (GetRedditData E altHost slug True w1) = Inl (FailedToGetRedditData (StatusCode res2))"
    if "session_Do E (Suc (Suc (Suc (clock w)))) r2 = Inr res2"
       "StatusCode res2 < 200 \<or> 299 < StatusCode res2" for res2
  proof -
    have "StatusCode res2 \<noteq> 200" using that(2) by auto
    then show ?thesis using url(2) cookies that(1)
      by (subst GetRedditData.simps)
         (simp add: Let_def http_Do_def tick_def emit_def r2_def cl)
  qed
  show ?thesis unfolding step using tr err by (auto simp: r2_def reddit_request_def reddit_url_def)
qed


theorem GetRedditData_retries_once_witness:
  "map req_url (requests_of (trace (snd (GetRedditData (env0 (server 200 0 500 [])) ''www.reddit.com''
          ''r/x/comments/1'' False world0))))
     = [''https://www.reddit.com/r/x/comments/1/.json'',
        ''https://old.reddit.com/r/x/comments/1/.json'']
   \<and> fst (GetRedditData (env0 (server 200 0 500 [])) ''www.reddit.com'' ''r/x/comments/1'' False world0)
       = Inl (FailedToGetRedditData 500)"
proof -
  define E where "E = env0 (server 200 0 500 [])"
  define res where "res = \<lparr>StatusCode = 500, ContentLength = int (length ([] :: byte list)),
                             Body = Inr ([] :: byte list)\<rparr>"
  have h1: "new_request_err E (reddit_url ''www.reddit.com'' ''r/x/comments/1'') = None"
    and h2: "new_request_err E (reddit_url (if ''www.reddit.com'' = ''old.reddit.com''
                 then ''www.reddit.com'' else ''old.reddit.com'') ''r/x/comments/1'') = None"
    and h3: "\<forall>t. ParseCookieFile E t ''reddit.txt'' = Inr []"
    and h4: "session_Do E (Suc (clock world0))
               (reddit_request E (reddit_url ''www.reddit.com'' ''r/x/comments/1'') []) = Inr res"
    and h5: "StatusCode res < 200 \<or> 299 < StatusCode res"
    by (simp_all add: E_def env0_def server_def reddit_request_def res_def)
  note T = GetRedditData_retries_once [OF h1 h2 h3 h4 h5]
  have h6: "session_Do E (Suc (Suc (Suc (clock world0))))
              (reddit_request E (reddit_url (if ''www.reddit.com'' = ''old.reddit.com''
                 then ''www.reddit.com'' else ''old.reddit.com'') ''r/x/comments/1'') []) = Inr res
            \<and> (StatusCode res < 200 \<or> 299 < StatusCode res)"
    by (simp add: E_def env0_def server_def reddit_request_def res_def)
  have a: "fst (GetRedditData E ''www.reddit.com'' ''r/x/comments/1'' False world0)
             = Inl (FailedToGetRedditData 500)"
    using T [THEN conjunct2, THEN conjunct2, rule_format, OF h6] by (simp add: res_def)
  have b: "map req_url (requests_of (trace (snd (GetRedditData E ''www.reddit.com''
              ''r/x/comments/1'' False world0))))
             = [''https://www.reddit.com/r/x/comments/1/.json'',
                ''https://old.reddit.com/r/x/comments/1/.json'']"
    using T [THEN conjunct1] by (simp add: world0_def reddit_request_def reddit_url_def)
  show ?thesis using a b unfolding E_def by simp
qed

subsection \<open>\<^verbatim>\<open>DownloadSegments\<close>: the paths in the order of the segments\<close>

lemma set_schedule_order: "set (schedule_order s n) = {..<n}"
  by (auto simp: schedule_order_def Let_def)

lemma run_segments_ok:
  "run_segments E ctx config tempDir segmentURLs order downloadedFiles w = (Ok paths, w')
     \<Longrightarrow> length paths = length downloadedFiles
       \<and> (\<forall>i < length downloadedFiles.
             paths ! i = (if i \<in> set order then filepath_Join tempDir (segment_name i)
                          else downloadedFiles ! i))
       \<and> (\<forall>i \<in> set order. \<exists>w1 w2 p.
             DownloadFile E ctx [segmentURLs ! i] (segment_name i)
               (Some (segment_config config tempDir)) w1 = (Ok p, w2))"
proof (induction order arbitrary: downloadedFiles w)
  case Nil
  then show ?case by simp
next
  case (Cons idx order)
  obtain r w1 where d: "DownloadFile E ctx [segmentURLs ! idx] (segment_name idx)
                          (Some (segment_config config tempDir)) w = (r, w1)"
    by (cases "DownloadFile E ctx [segmentURLs ! idx] (segment_name idx)
                          (Some (segment_config config tempDir)) w")
  from Cons.prems d obtain p where r: "r = Ok p"
    by (cases r) (simp_all add: Let_def)
  have rec: "run_segments E ctx config tempDir segmentURLs order
               (downloadedFiles[idx := filepath_Join tempDir (segment_name idx)]) w1 = (Ok paths, w')"
    using Cons.prems d r by (simp add: Let_def)
  from Cons.IH [OF rec] have
    len: "length paths = length downloadedFiles"
    and nth: "\<forall>i < length downloadedFiles.
             paths ! i = (if i \<in> set order then filepath_Join tempDir (segment_name i)
                          else (downloadedFiles[idx := filepath_Join tempDir (segment_name idx)]) ! i)"
    and calls: "\<forall>i \<in> set order. \<exists>w1 w2 p.
             DownloadFile E ctx [segmentURLs ! i] (segment_name i)
               (Some (segment_config config tempDir)) w1 = (Ok p, w2)"
    by simp_all
  have "\<forall>i < length downloadedFiles.
             paths ! i = (if i \<in> set (idx # order) then filepath_Join tempDir (segment_name i)
                          else downloadedFiles ! i)"
    using nth by (auto simp: nth_list_update)
  moreover have "\<forall>i \<in> set (idx # order). \<exists>w1 w2 p.
             DownloadFile E ctx [segmentURLs ! i] (segment_name i)
               (Some (segment_config config tempDir)) w1 = (Ok p, w2)"
    using calls d r by auto
  ultimately show ?case using len by blast
qed

lemma run_segments_all_ok:
  assumes "\<forall>idx \<in> set order. \<forall>w'. \<exists>p w''.
             DownloadFile E ctx [segmentURLs ! idx] (segment_name idx)
               (Some (segment_config config tempDir)) w' = (Ok p, w'')"
  shows "\<exists>paths w'. run_segments E ctx config tempDir segmentURLs order downloadedFiles w
                      = (Ok paths, w')"
  using assms
proof (induction order arbitrary: downloadedFiles w)
  case Nil
  show ?case by simp
next
  case (Cons idx order)
  obtain p w1 where d: "DownloadFile E ctx [segmentURLs ! idx] (segment_name idx)
                          (Some (segment_config config tempDir)) w = (Ok p, w1)"
    using Cons.prems by (meson list.set_intros(1))
  have "\<forall>idx \<in> set order. \<forall>w'. \<exists>p w''.
             DownloadFile E ctx [segmentURLs ! idx] (segment_name idx)
               (Some (segment_config config tempDir)) w' = (Ok p, w'')"
    using Cons.prems by simp
  from Cons.IH [OF this, of "downloadedFiles[idx := filepath_Join tempDir (segment_name idx)]" w1]
  show ?case using d by (simp add: Let_def)
qed

lemma DownloadFile_ok_path:
  assumes "DownloadFile E ctx URLList fileName (Some config) w = (Ok p, w')"
  shows "p = filepath_Join (DownloadDir config) fileName"
proof -
  have "fst (DownloadFile_loop E ctx URLList fileName config [] w) = Ok p"
    using assms by (simp add: DownloadFile_def)
  from DownloadFile_loop_ok [OF this] show ?thesis by simp
qed

lemma DownloadSegments_ok:
  fixes E ctx segmentURLs config w
  defines "cfg \<equiv> (case config of None \<Rightarrow> DefaultConfig | Some c \<Rightarrow> c)"
  defines "tempDir \<equiv> filepath_Join (DownloadDir cfg) (''segments_'' @ time_Now E (clock w))"
  assumes ok: "DownloadSegments E ctx segmentURLs config w = (Ok paths, w')"
  shows "paths = map (\<lambda>idx. filepath_Join tempDir (segment_name idx)) [0..<length segmentURLs]
         \<and> (\<forall>idx < length segmentURLs. \<exists>w1 w2.
               DownloadFile E ctx [segmentURLs ! idx] (segment_name idx)
                 (Some (segment_config cfg tempDir)) w1
               = (Ok (filepath_Join tempDir (segment_name idx)), w2))"
proof -
  define n where "n = length segmentURLs"
  obtain w1 where
    run: "run_segments E ctx cfg tempDir segmentURLs (schedule_order (sched E) n)
            (replicate n []) w1 = (Ok paths, w')"
    using ok unfolding DownloadSegments_def cfg_def [symmetric] Let_def tempDir_def [symmetric]
      n_def [symmetric]
    by (auto split: prod.splits option.splits if_splits)
  from run_segments_ok [OF run] have
    len: "length paths = n"
    and nth: "\<forall>i < n. paths ! i = filepath_Join tempDir (segment_name i)"
    and calls: "\<forall>i < n. \<exists>w1 w2 p.
             DownloadFile E ctx [segmentURLs ! i] (segment_name i)
               (Some (segment_config cfg tempDir)) w1 = (Ok p, w2)"
    by (simp_all add: set_schedule_order)
  have paths: "paths = map (\<lambda>idx. filepath_Join tempDir (segment_name idx)) [0..<n]"
    using len nth by (intro nth_equalityI) simp_all
  have dir: "DownloadDir (segment_config cfg tempDir) = tempDir" by (simp add: segment_config_def)
  have each: "\<exists>w1 w2. DownloadFile E ctx [segmentURLs ! idx] (segment_name idx)
                 (Some (segment_config cfg tempDir)) w1
               = (Ok (filepath_Join tempDir (segment_name idx)), w2)" if "idx < n" for idx
  proof -
    from calls that obtain w1 w2 p where
      d: "DownloadFile E ctx [segmentURLs ! idx] (segment_name idx)
            (Some (segment_config cfg tempDir)) w1 = (Ok p, w2)" by blast
    from DownloadFile_ok_path [OF d] have "p = filepath_Join tempDir (segment_name idx)"
      by (simp add: dir)
    with d show ?thesis by blast
  qed
  show ?thesis using paths each unfolding n_def by simp
qed

text \<open>
  Claim C7. Write \<open>R\<close> for what \<^verbatim>\<open>DownloadSegments\<close> returns and \<open>tempDir\<close> for its
  directory \<^verbatim>\<open>DownloadDir/segments_<time>\<close>. Each segment \<open>idx\<close> is downloaded by
  \<^verbatim>\<open>DownloadFile\<close> on the one URL of the segment, with the file name \<^verbatim>\<open>segment_%05d\<close> of
  \<open>idx\<close> and a configuration that has \<^verbatim>\<open>Remux\<close> false, \<^verbatim>\<open>Concurrency\<close> 3, no progress
  handler and \<open>tempDir\<close> as its directory.
  \<^item> Forwards: with a semaphore of positive capacity and a directory that can be made,
    when the download of every segment succeeds whenever it is tried, \<open>R\<close> is the list
    whose entry \<open>idx\<close> is \<^verbatim>\<open>tempDir/segment_%05d\<close> of \<open>idx\<close>, for \<open>idx\<close> from 0 to the number
    of segments.
  \<^item> Backwards: whenever \<open>R\<close> is a list of paths, it is that list, and every segment was
    downloaded by such a call, which returned the path recorded at its index.
  The order in which the goroutines run is the field \<open>sched\<close> of the environment, over
  which the statement is universal: the list is in the order of the indices whatever
  the order of completion. The witness runs three segments in the orders 2, 0, 1 and
  0, 1, 2: the requests differ, the list does not.
\<close>

theorem DownloadSegments_paths_in_order:
  fixes E ctx segmentURLs config w
  defines "cfg \<equiv> (case config of None \<Rightarrow> DefaultConfig | Some c \<Rightarrow> c)"
  defines "tempDir \<equiv> filepath_Join (DownloadDir cfg) (''segments_'' @ time_Now E (clock w))"
  defines "R \<equiv> DownloadSegments E ctx segmentURLs config w"
  shows
    "(0 < Concurrency cfg \<and> fs_err E (Suc (clock w)) (MkdirAll tempDir) = None
        \<and> (\<forall>idx < length segmentURLs. \<forall>w'. \<exists>p w''.
              DownloadFile E ctx [segmentURLs ! idx] (segment_name idx)
                (Some (segment_config cfg tempDir)) w' = (Ok p, w''))
      \<longrightarrow> fst R = Ok (map (\<lambda>idx. filepath_Join tempDir (segment_name idx))
                        [0..<length segmentURLs]))
     \<and> (\<forall>paths. fst R = Ok paths
           \<longrightarrow> paths = map (\<lambda>idx. filepath_Join tempDir (segment_name idx))
                         [0..<length segmentURLs]
              \<and> (\<forall>idx < length segmentURLs. \<exists>w1 w2.
                    DownloadFile E ctx [segmentURLs ! idx] (segment_name idx)
                      (Some (segment_config cfg tempDir)) w1
                    = (Ok (filepath_Join tempDir (segment_name idx)), w2)))
     \<and> Remux (segment_config cfg tempDir) = False
     \<and> Concurrency (segment_config cfg tempDir) = 3
     \<and> ProgressUpdater (segment_config cfg tempDir) = None
     \<and> DownloadDir (segment_config cfg tempDir) = tempDir
     \<and> (\<forall>idx. segment_name idx
           = ''segment_'' @ replicate (5 - length (string_of_nat idx)) CHR ''0''
               @ string_of_nat idx)"
proof -
  have B: "\<forall>paths. fst R = Ok paths
           \<longrightarrow> paths = map (\<lambda>idx. filepath_Join tempDir (segment_name idx))
                         [0..<length segmentURLs]
              \<and> (\<forall>idx < length segmentURLs. \<exists>w1 w2.
                    DownloadFile E ctx [segmentURLs ! idx] (segment_name idx)
                      (Some (segment_config cfg tempDir)) w1
                    = (Ok (filepath_Join tempDir (segment_name idx)), w2))"
  proof (intro allI impI)
    fix paths assume "fst R = Ok paths"
    then have ok: "DownloadSegments E ctx segmentURLs config w = (Ok paths, snd R)"
      by (simp add: R_def prod_eq_iff)
    from DownloadSegments_ok [OF ok]
    show "paths = map (\<lambda>idx. filepath_Join tempDir (segment_name idx)) [0..<length segmentURLs]
              \<and> (\<forall>idx < length segmentURLs. \<exists>w1 w2.
                    DownloadFile E ctx [segmentURLs ! idx] (segment_name idx)
                      (Some (segment_config cfg tempDir)) w1
                    = (Ok (filepath_Join tempDir (segment_name idx)), w2))"
      unfolding cfg_def tempDir_def .
  qed
  have F: "0 < Concurrency cfg \<and> fs_err E (Suc (clock w)) (MkdirAll tempDir) = None
        \<and> (\<forall>idx < length segmentURLs. \<forall>w'. \<exists>p w''.
              DownloadFile E ctx [segmentURLs ! idx] (segment_name idx)
                (Some (segment_config cfg tempDir)) w' = (Ok p, w''))
      \<longrightarrow> fst R = Ok (map (\<lambda>idx. filepath_Join tempDir (segment_name idx))
                        [0..<length segmentURLs])"
  proof
    assume h: "0 < Concurrency cfg \<and> fs_err E (Suc (clock w)) (MkdirAll tempDir) = None
        \<and> (\<forall>idx < length segmentURLs. \<forall>w'. \<exists>p w''.
              DownloadFile E ctx [segmentURLs ! idx] (segment_name idx)
                (Some (segment_config cfg tempDir)) w' = (Ok p, w''))"
    define n where "n = length segmentURLs"
    define w1 where "w1 = (emit (FsOp (MkdirAll tempDir)) (tick (tick w)))
                            \<lparr>dirs := insert tempDir (dirs (emit (FsOp (MkdirAll tempDir)) (tick (tick w))))\<rparr>"
    have mk: "os_MkdirAll E tempDir (tick w) = (None, w1)"
      using h by (simp add: os_MkdirAll_def fs_call_def tick_def emit_def w1_def)
    have "\<forall>idx \<in> set (schedule_order (sched E) n). \<forall>w'. \<exists>p w''.
                DownloadFile E ctx [segmentURLs ! idx] (segment_name idx)
                  (Some (segment_config cfg tempDir)) w' = (Ok p, w'')"
      using h by (simp add: set_schedule_order n_def)
    from run_segments_all_ok [OF this, of "replicate n []" w1]
    obtain paths w' where run: "run_segments E ctx cfg tempDir segmentURLs
        (schedule_order (sched E) n) (replicate n []) w1 = (Ok paths, w')" by blast
    have R: "R = (Ok paths, w')"
      unfolding R_def DownloadSegments_def cfg_def [symmetric] Let_def tempDir_def [symmetric]
        n_def [symmetric]
      using h mk run by simp
    then have "fst R = Ok paths" by simp
    with B show "fst R = Ok (map (\<lambda>idx. filepath_Join tempDir (segment_name idx))
                          [0..<length segmentURLs])"
      by simp
  qed
  have C: "Remux (segment_config cfg tempDir) = False"
    "Concurrency (segment_config cfg tempDir) = 3"
    "ProgressUpdater (segment_config cfg tempDir) = None"
    "DownloadDir (segment_config cfg tempDir) = tempDir"
    "\<forall>idx. segment_name idx
           = ''segment_'' @ replicate (5 - length (string_of_nat idx)) CHR ''0''
               @ string_of_nat idx"
    by (simp_all add: segment_config_def segment_name_def pad5_def Let_def)
  show ?thesis by (intro conjI) (rule F, rule B, (rule C)+)
qed

subsection \<open>The empty list of candidates\<close>

text \<open>
  Claim C10. For an empty list of candidate URLs, \<^verbatim>\<open>DownloadFile\<close> and
  \<^verbatim>\<open>DownloadFileInMemory\<close> return the error \<^verbatim>\<open>ErrDownloadFailed\<close> with an empty list of
  causes and leave the world as it was: no request, no directory, no file. The loop body,
  where the context is looked at, is not entered.
\<close>

theorem empty_URLList_DownloadFailed:
  "DownloadFile E ctx [] fileName config w = (Err (ErrDownloadFailed []), w)
   \<and> DownloadFileInMemory E ctx [] config w = (Inl (ErrDownloadFailed []), w)"
  by (simp add: DownloadFile_def DownloadFileInMemory_def)


end
